theory Spec2Isabelle
  imports Main
begin

section \<open>Go strings (package strings, slice expressions)\<close>

text \<open>
  A Go string is a sequence of bytes; \<open>string\<close> (a list of 8-bit characters) is the
  same thing. \<open>HasPrefix\<close>, \<open>Index\<close> and \<open>Contains\<close> are the functions of Go's package
  \<open>strings\<close>: \<open>Index s substr\<close> is the position of the first occurrence of \<open>substr\<close>
  in \<open>s\<close>, or \<open>-1\<close>.
\<close>

definition HasPrefix :: "string \<Rightarrow> string \<Rightarrow> bool" where
  "HasPrefix s p = (take (length p) s = p)"

fun Index :: "string \<Rightarrow> string \<Rightarrow> int" where
  "Index [] substr = (if substr = [] then 0 else - 1)"
| "Index (c # cs) substr =
     (if HasPrefix (c # cs) substr then 0
      else (let r = Index cs substr in if r = - 1 then - 1 else r + 1))"

definition Contains :: "string \<Rightarrow> string \<Rightarrow> bool" where
  "Contains s substr = (0 \<le> Index s substr)"

text \<open>
  Every way the configuration parser can stop without a configuration. A slice
  expression \<open>line[lo:hi]\<close> panics at run time unless \<open>0 \<le> lo \<le> hi \<le> len(line)\<close>;
  the panic is not recovered anywhere in the package, so it ends the caller too.
\<close>

datatype error =
    SliceBoundsOutOfRange int int
  | FailedToParse string string
  | CannotDetect string
  | TwoImplementations string string

definition slice :: "string \<Rightarrow> int \<Rightarrow> int \<Rightarrow> error + string" where
  "slice line lo hi =
     (if 0 \<le> lo \<and> lo \<le> hi \<and> hi \<le> int (length line)
      then Inr (take (nat (hi - lo)) (drop (nat lo) line))
      else Inl (SliceBoundsOutOfRange lo hi))"

section \<open>internal/pkg/configparser\<close>

record Config =
  filename :: string
  MPIImplem :: string
  MpiMap :: "string \<rightharpoonup> string"

text \<open>An entry of the key/value file, as package \<open>kv\<close> returns it.\<close>

record KV =
  Key :: string
  Value :: string

definition detectOpenMPIVersion :: "string \<Rightarrow> error + string" where
  "detectOpenMPIVersion line =
     (if Contains line ''openmpi-'' then
        (if Contains line ''.tar'' then
           (let endVersion = Index line ''.tar'';
                startVersion = Index line ''openmpi-'' + 8
            in if startVersion \<noteq> - 1 \<and> endVersion \<noteq> - 1
               then slice line startVersion endVersion
               else Inr '''')
         else Inr '''')
      else Inr '''')"

definition detectMPICHVersion :: "string \<Rightarrow> error + string" where
  "detectMPICHVersion line =
     (if Contains line ''mpich-'' then
        (if Contains line ''.tar'' then
           (let endVersion = Index line ''.tar'';
                startVersion = Index line ''mpich-'' + 6
            in if startVersion \<noteq> - 1 \<and> endVersion \<noteq> - 1
               then slice line startVersion endVersion
               else Inr '''')
         else Inr '''')
      else Inr '''')"

definition detectIntelMPIVersion :: "string \<Rightarrow> error + string" where
  "detectIntelMPIVersion line =
     (if Contains line ''l_mpi_'' then
        (if Contains line ''.tar'' then
           (let endVersion = Index line ''.tar'';
                startVersion = Index line ''l_mpi_''
            in if startVersion \<noteq> - 1 \<and> endVersion \<noteq> - 1
               then slice line startVersion endVersion
               else Inr '''')
         else Inr '''')
      else Inr '''')"

text \<open>
  \<open>detectMpiImplem\<close> returns the pair (implementation, version); the pair of empty
  strings means that nothing was detected.
\<close>

definition detectMpiImplem :: "string \<Rightarrow> error + (string \<times> string)" where
  "detectMpiImplem line =
     (case detectOpenMPIVersion line of
        Inl p \<Rightarrow> Inl p
      | Inr ompiVer \<Rightarrow>
          if ompiVer \<noteq> '''' then Inr (''openmpi'', ompiVer)
          else (case detectMPICHVersion line of
                  Inl p \<Rightarrow> Inl p
                | Inr mpichVer \<Rightarrow>
                    if mpichVer \<noteq> '''' then Inr (''mpich'', mpichVer)
                    else (case detectIntelMPIVersion line of
                            Inl p \<Rightarrow> Inl p
                          | Inr intelVer \<Rightarrow>
                              if intelVer \<noteq> '''' then Inr (''intel'', intelVer)
                              else Inr ('''', ''''))))"

text \<open>
  The loop of \<open>Parse\<close> over the loaded entries, on the configuration built so far.
\<close>

fun Parse_loop :: "KV list \<Rightarrow> Config \<Rightarrow> error + Config" where
  "Parse_loop [] config = Inr config"
| "Parse_loop (kv # kvs) config =
     (case detectMpiImplem (Value kv) of
        Inl p \<Rightarrow> Inl p
      | Inr (implem, version) \<Rightarrow>
          if implem = '''' \<or> version = '''' then Inl (CannotDetect (Value kv))
          else if MPIImplem config = '''' then
            Parse_loop kvs
              (config\<lparr>MPIImplem := implem, MpiMap := (MpiMap config)(version \<mapsto> Value kv)\<rparr>)
          else if MPIImplem config \<noteq> implem then
            Inl (TwoImplementations (MPIImplem config) implem)
          else Parse_loop kvs (config\<lparr>MpiMap := (MpiMap config)(version \<mapsto> Value kv)\<rparr>))"

text \<open>
  \<open>Parse\<close>. The loader \<open>kv.LoadKeyValueConfig\<close> belongs to another package: it is a
  parameter, returning the entries of the file in order or an error message.
\<close>

definition Parse :: "(string \<Rightarrow> string + KV list) \<Rightarrow> string \<Rightarrow> error + Config" where
  "Parse LoadKeyValueConfig file =
     (let config = \<lparr>filename = file, MPIImplem = '''', MpiMap = Map.empty\<rparr>
      in case LoadKeyValueConfig file of
           Inl err \<Rightarrow> Inl (FailedToParse file err)
         | Inr kvs \<Rightarrow> Parse_loop kvs config)"

text \<open>
  What \<open>Parse\<close> sees of a line: the detected (implementation, version), or \<open>None\<close>
  when \<open>detectMpiImplem\<close> panics or returns an empty implementation or version (the test
  at the head of the loop body). \<open>store\<close> is the assignment
  \<open>config.MpiMap[version] = kv.Value\<close>.
\<close>

definition detected :: "string \<Rightarrow> (string \<times> string) option" where
  "detected line =
     (case detectMpiImplem line of
        Inl p \<Rightarrow> None
      | Inr (implem, version) \<Rightarrow>
          if implem = '''' \<or> version = '''' then None else Some (implem, version))"

definition version_of :: "string \<Rightarrow> string" where
  "version_of line = (case detected line of None \<Rightarrow> '''' | Some (implem, version) \<Rightarrow> version)"

definition store :: "KV \<Rightarrow> (string \<rightharpoonup> string) \<Rightarrow> (string \<rightharpoonup> string)" where
  "store kv m = m(version_of (Value kv) \<mapsto> Value kv)"

text \<open>A loader that finds the given entries in the file, for concrete runs of \<open>Parse\<close>.\<close>

definition loaded :: "KV list \<Rightarrow> string \<Rightarrow> string + KV list" where
  "loaded kvs file = Inr kvs"

definition entry :: "string \<Rightarrow> string \<Rightarrow> KV" where
  "entry k v = \<lparr>Key = k, Value = v\<rparr>"

section \<open>The batch runner (package main)\<close>

text \<open>
  The types of the packages \<open>experiments\<close>, \<open>results\<close>, \<open>syexec\<close> and \<open>sys\<close>, with the
  fields that the batch runner reads or writes. A Go \<open>error\<close> is its message, \<open>None\<close>
  for \<open>nil\<close>.
\<close>

record MPI =
  ID :: string
  Version :: string
  URL :: string

record exp_Config =
  HostMPI :: MPI
  ContainerMPI :: MPI

record Result =
  Result_HostMPI :: MPI
  Result_ContainerMPI :: MPI
  Pass :: bool
  Note :: string

record syexec_Result =
  Err :: "string option"

record sys_Config =
  OutputFile :: string
  Nrun :: int

definition zero_MPI :: MPI where
  "zero_MPI = \<lparr>ID = '''', Version = '''', URL = ''''\<rparr>"

definition zero_Result :: Result where
  "zero_Result = \<lparr>Result_HostMPI = zero_MPI, Result_ContainerMPI = zero_MPI,
                   Pass = False, Note = ''''\<rparr>"

text \<open>
  \<open>getListExperiments\<close>. A \<open>range\<close> over a Go map visits every key once, in an order
  that the language leaves open and that may differ from one \<open>range\<close> to the next. The
  orders are parameters: \<open>outer\<close> is the sequence of (key, value) pairs that the outer
  loop visits, \<open>inner mpi1\<close> the sequence that the inner loop visits during the outer
  iteration for key \<open>mpi1\<close>. \<open>ranges_over m kvs\<close> says that \<open>kvs\<close> is such a traversal of
  the map \<open>m\<close>.
\<close>

definition ranges_over :: "(string \<rightharpoonup> string) \<Rightarrow> (string \<times> string) list \<Rightarrow> bool" where
  "ranges_over m kvs = (distinct (map fst kvs) \<and> map_of kvs = m)"

definition newExperiment :: "Config \<Rightarrow> string \<times> string \<Rightarrow> string \<times> string \<Rightarrow> exp_Config" where
  "newExperiment config h c =
     \<lparr>HostMPI = \<lparr>ID = MPIImplem config, Version = fst h, URL = snd h\<rparr>,
      ContainerMPI = \<lparr>ID = MPIImplem config, Version = fst c, URL = snd c\<rparr>\<rparr>"

definition getListExperiments ::
  "Config \<Rightarrow> (string \<times> string) list \<Rightarrow> (string \<Rightarrow> (string \<times> string) list) \<Rightarrow> exp_Config list"
where
  "getListExperiments config outer inner =
     concat (map (\<lambda>h. map (\<lambda>c. newExperiment config h c) (inner (fst h))) outer)"

text \<open>The identity of an experiment: (host version, container version).\<close>

definition identity :: "exp_Config \<Rightarrow> string \<times> string" where
  "identity e = (Version (HostMPI e), Version (ContainerMPI e))"

text \<open>
  The collaborators in other packages act on a world \<open>'w\<close> that the model does not look
  into: \<open>exp.Run\<close> (build, launch, wait), \<open>util.OpenResultsFile\<close> (\<open>False\<close> for a \<open>nil\<close>
  file), and \<open>WriteString\<close> and \<open>Sync\<close> on the open file. Each takes the world and
  returns its result with the next world. \<open>exp.Run\<close> receives \<open>sysCfg\<close> by pointer; it is
  taken not to change \<open>Nrun\<close> or \<open>OutputFile\<close>.
\<close>

record 'w env =
  exp_Run :: "exp_Config \<Rightarrow> sys_Config \<Rightarrow> 'w \<Rightarrow> (bool \<times> Result \<times> syexec_Result) \<times> 'w"
  OpenResultsFile :: "string \<Rightarrow> 'w \<Rightarrow> bool \<times> 'w"
  WriteString :: "string \<Rightarrow> 'w \<Rightarrow> string option \<times> 'w"
  Sync :: "'w \<Rightarrow> string option \<times> 'w"

text \<open>Every \<open>log.Fatalf\<close> of \<open>run\<close>: the process exits there.\<close>

datatype fatal =
    InvalidParameters
  | ImpossibleToOpenResultFile string
  | FailureDuringExecution string
  | FailedToWriteResult string
  | FailedToSyncLogFile string

text \<open>
  \<open>runExperiment\<close>. The tuple assignment \<open>expRes.Pass, expRes, execRes = exp.Run(...)\<close>
  assigns from left to right: \<open>expRes.Pass\<close> first, then the whole of \<open>expRes\<close>, so the
  result keeps the \<open>Pass\<close> field of the returned \<open>Result\<close>.
\<close>

definition runExperiment ::
  "'w env \<Rightarrow> exp_Config \<Rightarrow> sys_Config \<Rightarrow> 'w \<Rightarrow> (Result \<times> string option) \<times> 'w"
where
  "runExperiment env e sysCfg w =
     (let expRes0 = zero_Result\<lparr>Result_HostMPI := HostMPI e,
                                Result_ContainerMPI := ContainerMPI e\<rparr>
      in case exp_Run env e sysCfg w of
           ((pass, res, execRes), w') \<Rightarrow>
             (let expRes1 = expRes0\<lparr>Pass := pass\<rparr>;
                  expRes = res
              in case Err execRes of
                   Some msg \<Rightarrow>
                     ((expRes, Some (''failure during the execution of the experiment: '' @ msg)), w')
                 | None \<Rightarrow> ((expRes, None), w')))"

text \<open>
  The state of \<open>run\<close>: the world, the strings that \<open>WriteString\<close> has accepted on the
  results file (in order), and \<open>newResults\<close>. The variables of one pass of the outer loop
  are \<open>locals\<close>.
\<close>

record 'w run_state =
  world :: 'w
  written :: "string list"
  newResults :: "Result list"

record locals =
  success :: bool
  failure :: bool
  newRes :: Result

definition tab :: string where
  "tab = [CHR 0x09]"

definition newline :: string where
  "newline = [CHR 0x0A]"

definition result_line :: "exp_Config \<Rightarrow> string \<Rightarrow> string \<Rightarrow> string" where
  "result_line e status note =
     Version (HostMPI e) @ tab @ Version (ContainerMPI e) @ tab @ status @ tab @ note @ newline"

text \<open>
  The inner loop \<open>for i = 0; i < sysCfg.Nrun; i++\<close>, from the value of \<open>i\<close>. The calls to
  \<open>log.Printf\<close> are left out. \<open>i\<close> stays below \<open>Nrun\<close>, so the machine integer never
  wraps and \<open>int\<close> is exact.
\<close>

function iterations ::
  "'w env \<Rightarrow> sys_Config \<Rightarrow> exp_Config \<Rightarrow> int \<Rightarrow> locals \<Rightarrow> 'w run_state
     \<Rightarrow> fatal option \<times> locals \<times> 'w run_state"
where
  "iterations env sysCfg e i l st =
     (if i < Nrun sysCfg then
        (case runExperiment env e sysCfg (world st) of
           ((r, err), w) \<Rightarrow>
             (let l1 = l\<lparr>newRes := r\<rparr>;
                  st1 = st\<lparr>world := w\<rparr>
              in case err of
                   Some msg \<Rightarrow> (Some (FailureDuringExecution msg), l1, st1)
                 | None \<Rightarrow>
                     (let st2 = st1\<lparr>newResults := newResults st1 @ [newRes l1]\<rparr>;
                          l2 = (if err \<noteq> None then l1\<lparr>success := False, failure := False\<rparr>
                                else l1);
                          l3 = (if \<not> Pass (newRes l2) then l2\<lparr>success := False\<rparr> else l2)
                      in iterations env sysCfg e (i + 1) l3 st2)))
      else (None, l, st))"
  by pat_completeness auto
termination
  by (relation "measure (\<lambda>(env, sysCfg, e, i, l, st). nat (Nrun sysCfg - i))") auto

text \<open>The three branches after the inner loop; only the last two call \<open>f.Sync\<close>.\<close>

definition write_result :: "'w env \<Rightarrow> string \<Rightarrow> 'w run_state \<Rightarrow> fatal option \<times> 'w run_state" where
  "write_result env s st =
     (case WriteString env s (world st) of
        (Some msg, w) \<Rightarrow> (Some (FailedToWriteResult msg), st\<lparr>world := w\<rparr>)
      | (None, w) \<Rightarrow> (None, st\<lparr>world := w, written := written st @ [s]\<rparr>))"

definition sync_file :: "'w env \<Rightarrow> 'w run_state \<Rightarrow> fatal option \<times> 'w run_state" where
  "sync_file env st =
     (case Sync env (world st) of
        (Some msg, w) \<Rightarrow> (Some (FailedToSyncLogFile msg), st\<lparr>world := w\<rparr>)
      | (None, w) \<Rightarrow> (None, st\<lparr>world := w\<rparr>))"

definition record_result ::
  "'w env \<Rightarrow> exp_Config \<Rightarrow> locals \<Rightarrow> 'w run_state \<Rightarrow> fatal option \<times> 'w run_state"
where
  "record_result env e l st =
     (if failure l then
        write_result env (result_line e ''ERROR'' (Note (newRes l))) st
      else if \<not> success l then
        (case write_result env (result_line e ''FAIL'' (Note (newRes l))) st of
           (Some f, st1) \<Rightarrow> (Some f, st1)
         | (None, st1) \<Rightarrow> sync_file env st1)
      else
        (case write_result env (result_line e ''PASS'' (Note (newRes l))) st of
           (Some f, st1) \<Rightarrow> (Some f, st1)
         | (None, st1) \<Rightarrow> sync_file env st1))"

text \<open>One pass of the outer loop \<open>for _, e := range experiments\<close>, and the loop.\<close>

definition run_one ::
  "'w env \<Rightarrow> sys_Config \<Rightarrow> exp_Config \<Rightarrow> 'w run_state \<Rightarrow> fatal option \<times> 'w run_state"
where
  "run_one env sysCfg e st =
     (case iterations env sysCfg e 0 \<lparr>success = True, failure = False, newRes = zero_Result\<rparr> st of
        (Some f, l, st1) \<Rightarrow> (Some f, st1)
      | (None, l, st1) \<Rightarrow> record_result env e l st1)"

fun run_loop ::
  "'w env \<Rightarrow> sys_Config \<Rightarrow> exp_Config list \<Rightarrow> 'w run_state \<Rightarrow> fatal option \<times> 'w run_state"
where
  "run_loop env sysCfg [] st = (None, st)"
| "run_loop env sysCfg (e # es) st =
     (case run_one env sysCfg e st of
        (Some f, st1) \<Rightarrow> (Some f, st1)
      | (None, st1) \<Rightarrow> run_loop env sysCfg es st1)"

text \<open>
  \<open>run\<close>: \<open>sysCfg\<close> is a pointer, \<open>None\<close> for \<open>nil\<close>. The result is the fatal exit, if any,
  and the final state, whose \<open>newResults\<close> is the value that \<open>run\<close> returns.
\<close>

definition run ::
  "'w env \<Rightarrow> exp_Config list \<Rightarrow> sys_Config option \<Rightarrow> 'w \<Rightarrow> fatal option \<times> 'w run_state"
where
  "run env experiments sysCfg w =
     (let st = \<lparr>world = w, written = [], newResults = []\<rparr>
      in case sysCfg of
           None \<Rightarrow> (Some InvalidParameters, st)
         | Some cfg \<Rightarrow>
             if OutputFile cfg = '''' then (Some InvalidParameters, st)
             else (case OpenResultsFile env (OutputFile cfg) w of
                     (False, w1) \<Rightarrow>
                       (Some (ImpossibleToOpenResultFile (OutputFile cfg)), st\<lparr>world := w1\<rparr>)
                   | (True, w1) \<Rightarrow> run_loop env cfg experiments (st\<lparr>world := w1\<rparr>)))"

text \<open>
  The first \<open>n\<close> invocations of \<open>runExperiment\<close> on \<open>e\<close> from the world \<open>w\<close>: their
  results in order, and the world after the last one.
\<close>

fun invocations ::
  "'w env \<Rightarrow> sys_Config \<Rightarrow> exp_Config \<Rightarrow> nat \<Rightarrow> 'w \<Rightarrow> (Result \<times> string option) list \<times> 'w"
where
  "invocations env sysCfg e 0 w = ([], w)"
| "invocations env sysCfg e (Suc n) w =
     (case runExperiment env e sysCfg w of
        (r, w1) \<Rightarrow> (case invocations env sysCfg e n w1 of (rs, w2) \<Rightarrow> (r # rs, w2)))"

text \<open>
  A world for concrete runs: the outcomes that \<open>exp.Run\<close> will return, in order (a pass
  with an empty note once the script is used up); the file opens, and every write and
  sync succeeds.
\<close>

definition outcome :: "bool \<Rightarrow> string \<Rightarrow> string option \<Rightarrow> bool \<times> Result \<times> syexec_Result" where
  "outcome pass note err = (pass, zero_Result\<lparr>Pass := pass, Note := note\<rparr>, \<lparr>Err = err\<rparr>)"

definition scripted_Run ::
  "exp_Config \<Rightarrow> sys_Config \<Rightarrow> (bool \<times> Result \<times> syexec_Result) list
     \<Rightarrow> (bool \<times> Result \<times> syexec_Result) \<times> (bool \<times> Result \<times> syexec_Result) list"
where
  "scripted_Run e sysCfg w = (case w of [] \<Rightarrow> (outcome True '''' None, []) | x # xs \<Rightarrow> (x, xs))"

definition scripted :: "(bool \<times> Result \<times> syexec_Result) list env" where
  "scripted = \<lparr>exp_Run = scripted_Run,
               OpenResultsFile = (\<lambda>path w. (True, w)),
               WriteString = (\<lambda>s w. (None, w)),
               Sync = (\<lambda>w. (None, w))\<rparr>"

definition mpi :: "string \<Rightarrow> MPI" where
  "mpi v = \<lparr>ID = ''openmpi'', Version = v, URL = ''openmpi-'' @ v @ ''.tar.bz2''\<rparr>"

definition versions_pair :: "string \<Rightarrow> string \<Rightarrow> exp_Config" where
  "versions_pair h c = \<lparr>HostMPI = mpi h, ContainerMPI = mpi c\<rparr>"

definition sysCfg_n :: "int \<Rightarrow> sys_Config" where
  "sysCfg_n n = \<lparr>OutputFile = ''results.txt'', Nrun = n\<rparr>"

text \<open>A line is the PASS or the FAIL record of the experiment \<open>e\<close>, with some note.\<close>

definition PASS_or_FAIL :: "exp_Config \<Rightarrow> string \<Rightarrow> bool" where
  "PASS_or_FAIL e s = (\<exists>note. s = result_line e ''PASS'' note \<or> s = result_line e ''FAIL'' note)"

text \<open>
  A configuration with two versions, and two traversals of its map: the outer loop
  visits the keys in one order, the inner loop in the other order during the first
  outer iteration.
\<close>

definition forwards :: "(string \<times> string) list" where
  "forwards = [(''3.0.4'', ''urlA''), (''3.1.0'', ''urlB'')]"

definition backwards :: "(string \<times> string) list" where
  "backwards = [(''3.1.0'', ''urlB''), (''3.0.4'', ''urlA'')]"

definition inner_order :: "string \<Rightarrow> (string \<times> string) list" where
  "inner_order mpi1 = (if mpi1 = ''3.0.4'' then backwards else forwards)"

definition two_versions :: Config where
  "two_versions = \<lparr>filename = ''openmpi.conf'', MPIImplem = ''openmpi'',
                    MpiMap = map_of forwards\<rparr>"

section \<open>Properties of the detection functions\<close>

lemma Index_le_length: "Index s substr \<le> int (length s)"
  by (induction s) (auto simp: Let_def)

lemma Index_ge: "- 1 \<le> Index s substr"
  by (induction s) (auto simp: Let_def)

text \<open>
  \<open>Index\<close> finds the first occurrence: \<open>substr\<close> starts at the position returned and
  at no earlier position; the result is \<open>-1\<close> only when it starts nowhere.
\<close>

lemma Index_occurs:
  "0 \<le> Index s substr \<Longrightarrow> HasPrefix (drop (nat (Index s substr)) s) substr"
proof (induction s)
  case Nil
  then show ?case by (simp add: HasPrefix_def split: if_splits)
next
  case (Cons c cs)
  show ?case
  proof (cases "HasPrefix (c # cs) substr")
    case True
    then show ?thesis by simp
  next
    case False
    with Cons.prems have r: "0 \<le> Index cs substr" "Index (c # cs) substr = Index cs substr + 1"
      by (simp_all add: Let_def split: if_splits)
    from r(1) have "nat (Index cs substr + 1) = Suc (nat (Index cs substr))" by simp
    with Cons.IH [OF r(1)] r(2) show ?thesis by simp
  qed
qed

lemma Index_first:
  "j < nat (Index s substr) \<Longrightarrow> \<not> HasPrefix (drop j s) substr"
proof (induction s arbitrary: j)
  case Nil
  then show ?case by (simp split: if_splits)
next
  case (Cons c cs)
  from Cons.prems have no: "\<not> HasPrefix (c # cs) substr"
    by (auto split: if_splits)
  show ?case
  proof (cases j)
    case 0
    with no show ?thesis by simp
  next
    case (Suc j')
    from Cons.prems no have r: "Index cs substr \<noteq> - 1" "Index (c # cs) substr = Index cs substr + 1"
      by (auto simp: Let_def split: if_splits)
    with Cons.prems Suc have "j' < nat (Index cs substr)" by simp
    from Cons.IH [OF this] Suc show ?thesis by simp
  qed
qed

lemma Index_absent:
  "Index s substr = - 1 \<Longrightarrow> \<not> HasPrefix (drop j s) substr"
proof (induction s arbitrary: j)
  case Nil
  then show ?case by (simp add: HasPrefix_def split: if_splits)
next
  case (Cons c cs)
  from Cons.prems Index_ge [of cs substr]
  have no: "\<not> HasPrefix (c # cs) substr" and r: "Index cs substr = - 1"
    by (auto simp: Let_def split: if_splits)
  show ?case
  proof (cases j)
    case 0
    with no show ?thesis by simp
  next
    case (Suc j')
    with Cons.IH [OF r] show ?thesis by simp
  qed
qed

lemma detectMpiImplem_without_tar:
  "\<not> Contains line ''.tar'' \<Longrightarrow> detectMpiImplem line = Inr ('''', '''')"
  by (simp add: detectMpiImplem_def detectOpenMPIVersion_def detectMPICHVersion_def
      detectIntelMPIVersion_def)

lemma detectMpiImplem_without_marker:
  "\<not> Contains line ''openmpi-'' \<Longrightarrow> \<not> Contains line ''mpich-'' \<Longrightarrow>
   \<not> Contains line ''l_mpi_'' \<Longrightarrow> detectMpiImplem line = Inr ('''', '''')"
  by (simp add: detectMpiImplem_def detectOpenMPIVersion_def detectMPICHVersion_def
      detectIntelMPIVersion_def)

text \<open>When the first \<open>.tar\<close> comes before the end of the marker, the slice panics.\<close>

lemma detectOpenMPIVersion_panics:
  assumes "Contains line ''openmpi-''" "Contains line ''.tar''"
    and "Index line ''.tar'' < Index line ''openmpi-'' + 8"
  shows "detectMpiImplem line =
           Inl (SliceBoundsOutOfRange (Index line ''openmpi-'' + 8) (Index line ''.tar''))"
  using assms
  by (simp add: detectMpiImplem_def detectOpenMPIVersion_def slice_def Contains_def Let_def)

text \<open>
  When the first \<open>.tar\<close> of the line comes after the end of the first \<open>openmpi-\<close>
  (or \<open>mpich-\<close>), the version is the text between the two. For Intel MPI the version
  starts at the marker itself.
\<close>

lemma detectOpenMPIVersion_between:
  assumes "Contains line ''openmpi-''"
    and "Index line ''openmpi-'' + 8 < Index line ''.tar''"
  shows "detectMpiImplem line =
           Inr (''openmpi'',
                take (nat (Index line ''.tar'' - (Index line ''openmpi-'' + 8)))
                  (drop (nat (Index line ''openmpi-'' + 8)) line))"
proof -
  let ?a = "Index line ''openmpi-'' + 8" and ?b = "Index line ''.tar''"
  from assms have a: "0 \<le> ?a" "?a < ?b" by (simp_all add: Contains_def)
  have b: "?b \<le> int (length line)" by (rule Index_le_length)
  have "take (nat (?b - ?a)) (drop (nat ?a) line) \<noteq> ''''"
    using a b by simp
  moreover have "Contains line ''.tar''" using a by (simp add: Contains_def)
  ultimately show ?thesis
    using assms(1) a b
    by (simp add: detectMpiImplem_def detectOpenMPIVersion_def slice_def Let_def)
qed

lemma detectMPICHVersion_between:
  assumes "\<not> Contains line ''openmpi-''" and "Contains line ''mpich-''"
    and "Index line ''mpich-'' + 6 < Index line ''.tar''"
  shows "detectMpiImplem line =
           Inr (''mpich'',
                take (nat (Index line ''.tar'' - (Index line ''mpich-'' + 6)))
                  (drop (nat (Index line ''mpich-'' + 6)) line))"
proof -
  let ?a = "Index line ''mpich-'' + 6" and ?b = "Index line ''.tar''"
  from assms have a: "0 \<le> ?a" "?a < ?b" by (simp_all add: Contains_def)
  have b: "?b \<le> int (length line)" by (rule Index_le_length)
  have "take (nat (?b - ?a)) (drop (nat ?a) line) \<noteq> ''''"
    using a b by simp
  moreover have "Contains line ''.tar''" using a by (simp add: Contains_def)
  ultimately show ?thesis
    using assms(1,2) a b
    by (simp add: detectMpiImplem_def detectOpenMPIVersion_def detectMPICHVersion_def
        slice_def Let_def)
qed

lemma detectIntelMPIVersion_from_marker:
  assumes "\<not> Contains line ''openmpi-''" "\<not> Contains line ''mpich-''"
    and "Contains line ''l_mpi_''"
    and "Index line ''l_mpi_'' < Index line ''.tar''"
  shows "detectMpiImplem line =
           Inr (''intel'',
                take (nat (Index line ''.tar'' - Index line ''l_mpi_''))
                  (drop (nat (Index line ''l_mpi_'')) line))"
proof -
  let ?a = "Index line ''l_mpi_''" and ?b = "Index line ''.tar''"
  from assms have a: "0 \<le> ?a" "?a < ?b" by (simp_all add: Contains_def)
  have b: "?b \<le> int (length line)" by (rule Index_le_length)
  have "take (nat (?b - ?a)) (drop (nat ?a) line) \<noteq> ''''"
    using a b by simp
  moreover have "Contains line ''.tar''" using a by (simp add: Contains_def)
  ultimately show ?thesis
    using assms(1,2,3) a b
    by (simp add: detectMpiImplem_def detectOpenMPIVersion_def detectMPICHVersion_def
        detectIntelMPIVersion_def slice_def Let_def)
qed

text \<open>
  C2. The claim: for every input string, detect is total and returns Undetected rather
  than crashing, in particular when the first \<open>.tar\<close> lies before the end of the
  \<open>openmpi-\<close> or \<open>mpich-\<close> marker. The code evaluated at two such strings: the slice
  expression \<open>line[startVersion:endVersion]\<close> is reached with
  \<open>startVersion > endVersion\<close> and panics; nothing is returned. (The general form is
  \<open>detectOpenMPIVersion_panics\<close>; without \<open>.tar\<close> or without any marker the result is
  Undetected, \<open>detectMpiImplem_without_tar\<close> and \<open>detectMpiImplem_without_marker\<close>.)
\<close>

theorem detect_panics_when_tar_precedes_marker:
  "detectMpiImplem ''http://a.tar.org/openmpi-3.0.4.tar.bz2'' = Inl (SliceBoundsOutOfRange 25 8)
   \<and> detectMpiImplem ''http://a.tar.org/mpich-3.3.tar.gz'' = Inl (SliceBoundsOutOfRange 23 8)"
  by code_simp

text \<open>
  C3. The claim: for all three implementations, Intel MPI included, the version is the
  text strictly between the end of the marker and the start of \<open>.tar\<close>. The code
  evaluated at an Intel MPI location: \<open>detectIntelMPIVersion\<close> slices from the start of
  the marker (it does not add the marker's length, as the Open MPI and MPICH functions
  do), so the version returned begins with \<open>l_mpi_\<close>.
\<close>

theorem detect_intel_version_keeps_marker:
  "detectMpiImplem ''l_mpi_2019.3.199.tar.gz'' = Inr (''intel'', ''l_mpi_2019.3.199'')"
  by code_simp

section \<open>Properties of \<open>Parse\<close>\<close>

lemma detected_SomeD:
  "detected line = Some (i, v) \<Longrightarrow> detectMpiImplem line = Inr (i, v) \<and> i \<noteq> '''' \<and> v \<noteq> ''''"
  by (auto simp: detected_def split: sum.splits prod.splits if_splits)

lemma Parse_loop_undetected:
  "detected (Value kv) = None \<Longrightarrow> isl (Parse_loop (kv # kvs) c)"
  by (auto simp: detected_def split: sum.splits prod.splits if_splits)

lemma Parse_loop_step:
  assumes "detected (Value kv) = Some (i, v)"
  shows "Parse_loop (kv # kvs) c =
     (if MPIImplem c = '''' then
        Parse_loop kvs (c\<lparr>MPIImplem := i, MpiMap := (MpiMap c)(v \<mapsto> Value kv)\<rparr>)
      else if MPIImplem c \<noteq> i then Inl (TwoImplementations (MPIImplem c) i)
      else Parse_loop kvs (c\<lparr>MpiMap := (MpiMap c)(v \<mapsto> Value kv)\<rparr>))"
  using detected_SomeD [OF assms] by simp

declare Parse_loop.simps(2) [simp del]

lemma Parse_loop_ConsD:
  assumes "Parse_loop (kv # kvs) c = Inr c'"
  shows "\<exists>i v c1. detected (Value kv) = Some (i, v)
           \<and> (MPIImplem c = '''' \<or> MPIImplem c = i)
           \<and> MPIImplem c1 = i \<and> MpiMap c1 = store kv (MpiMap c)
           \<and> filename c1 = filename c \<and> Parse_loop kvs c1 = Inr c'"
proof (cases "detected (Value kv)")
  case None
  from Parse_loop_undetected [OF this, of kvs c] assms show ?thesis by simp
next
  case (Some iv)
  obtain i v where d: "detected (Value kv) = Some (i, v)"
    using Some by (cases iv) simp
  have st: "store kv (MpiMap c) = (MpiMap c)(v \<mapsto> Value kv)"
    by (simp add: store_def version_of_def d)
  show ?thesis
  proof (cases "MPIImplem c = ''''")
    case True
    let ?c1 = "c\<lparr>MPIImplem := i, MpiMap := (MpiMap c)(v \<mapsto> Value kv)\<rparr>"
    from assms True have "Parse_loop kvs ?c1 = Inr c'"
      by (simp add: Parse_loop_step [OF d])
    moreover have "MPIImplem ?c1 = i" "MpiMap ?c1 = store kv (MpiMap c)" "filename ?c1 = filename c"
      by (simp_all add: st)
    ultimately show ?thesis using d True by blast
  next
    case False
    let ?c1 = "c\<lparr>MpiMap := (MpiMap c)(v \<mapsto> Value kv)\<rparr>"
    from assms False have same: "MPIImplem c = i" and run: "Parse_loop kvs ?c1 = Inr c'"
      by (auto simp: Parse_loop_step [OF d] split: if_splits)
    have "MPIImplem ?c1 = i" "MpiMap ?c1 = store kv (MpiMap c)" "filename ?c1 = filename c"
      by (simp_all add: st same)
    with run d same show ?thesis by blast
  qed
qed

lemma Parse_loop_Inr_keeps:
  "Parse_loop kvs c = Inr c' \<Longrightarrow>
     filename c' = filename c \<and> (MPIImplem c \<noteq> '''' \<longrightarrow> MPIImplem c' = MPIImplem c)"
proof (induction kvs arbitrary: c)
  case Nil
  then show ?case by simp
next
  case (Cons kv kvs)
  from Parse_loop_ConsD [OF Cons.prems] obtain i v c1 where
    d: "detected (Value kv) = Some (i, v)" and
    c1: "MPIImplem c = '''' \<or> MPIImplem c = i" "MPIImplem c1 = i" "filename c1 = filename c" and
    run: "Parse_loop kvs c1 = Inr c'"
    by blast
  from detected_SomeD [OF d] have "i \<noteq> ''''" by simp
  with Cons.IH [OF run] c1 show ?case by auto
qed

lemma Parse_loop_Inr_implem:
  "Parse_loop kvs c = Inr c' \<Longrightarrow>
     \<forall>kv\<in>set kvs. \<exists>v. detected (Value kv) = Some (MPIImplem c', v)"
proof (induction kvs arbitrary: c)
  case Nil
  then show ?case by simp
next
  case (Cons kv kvs)
  from Parse_loop_ConsD [OF Cons.prems] obtain i v c1 where
    d: "detected (Value kv) = Some (i, v)" and c1: "MPIImplem c1 = i" and
    run: "Parse_loop kvs c1 = Inr c'"
    by blast
  from detected_SomeD [OF d] have "MPIImplem c1 \<noteq> ''''" by (simp add: c1)
  with Parse_loop_Inr_keeps [OF run] c1 have "MPIImplem c' = i" by simp
  with d Cons.IH [OF run] show ?case by auto
qed

lemma Parse_loop_Inr_map:
  "Parse_loop kvs c = Inr c' \<Longrightarrow> MpiMap c' = fold store kvs (MpiMap c)"
proof (induction kvs arbitrary: c)
  case Nil
  then show ?case by simp
next
  case (Cons kv kvs)
  from Parse_loop_ConsD [OF Cons.prems] obtain c1 where
    "MpiMap c1 = store kv (MpiMap c)" "Parse_loop kvs c1 = Inr c'"
    by blast
  with Cons.IH [of c1] show ?case by simp
qed

lemma Parse_loop_succeeds:
  "\<forall>kv\<in>set kvs. \<exists>v. detected (Value kv) = Some (i, v) \<Longrightarrow>
   MPIImplem c = '''' \<or> MPIImplem c = i \<Longrightarrow>
   \<exists>c'. Parse_loop kvs c = Inr c'"
proof (induction kvs arbitrary: c)
  case Nil
  then show ?case by simp
next
  case (Cons kv kvs)
  from Cons.prems(1) obtain v where d: "detected (Value kv) = Some (i, v)" by auto
  from Cons.prems(1) have rest: "\<forall>kv\<in>set kvs. \<exists>v. detected (Value kv) = Some (i, v)" by simp
  show ?case
    using Cons.prems(2) Cons.IH [OF rest]
    by (auto simp: Parse_loop_step [OF d])
qed

lemma fold_store_other:
  "\<forall>z\<in>set zs. version_of (Value z) \<noteq> v \<Longrightarrow> fold store zs m v = m v"
  by (induction zs arbitrary: m) (auto simp: store_def)

lemma fold_store_last:
  "\<forall>z\<in>set zs. version_of (Value z) \<noteq> version_of (Value e) \<Longrightarrow>
   fold store (xs @ e # zs) m (version_of (Value e)) = Some (Value e)"
  by (simp add: fold_store_other) (simp add: store_def)


lemma Parse_loop_fails_with_conflict:
  "\<forall>kv\<in>set kvs. detected (Value kv) \<noteq> None \<Longrightarrow> Parse_loop kvs c = Inl err \<Longrightarrow>
   \<exists>a b. a \<noteq> b \<and> err = TwoImplementations a b"
proof (induction kvs arbitrary: c)
  case Nil
  then show ?case by simp
next
  case (Cons kv kvs)
  from Cons.prems(1) obtain i v where d: "detected (Value kv) = Some (i, v)" by auto
  from Cons.prems(1) have rest: "\<forall>kv\<in>set kvs. detected (Value kv) \<noteq> None" by simp
  from Cons.prems(2) Cons.IH [OF rest] show ?case
    by (auto simp: Parse_loop_step [OF d] split: if_splits)
qed

text \<open>
  The loop stops at the first entry that fails: an error met on a list of entries is the
  result for every longer list.
\<close>

lemma Parse_loop_Inl_append:
  "Parse_loop xs c = Inl err \<Longrightarrow> Parse_loop (xs @ ys) c = Inl err"
proof (induction xs arbitrary: c)
  case Nil
  then show ?case by simp
next
  case (Cons kv xs)
  show ?case
  proof (cases "detected (Value kv)")
    case None
    with Cons.prems show ?thesis
      by (auto simp: Parse_loop.simps(2) detected_def split: sum.splits prod.splits if_splits)
  next
    case (Some iv)
    obtain i v where d: "detected (Value kv) = Some (i, v)"
      using Some by (cases iv) simp
    from Cons.prems Cons.IH show ?thesis
      by (auto simp: Parse_loop_step [OF d] split: if_splits)
  qed
qed

text \<open>
  Entries that all detect to the implementation \<open>i\<close> are passed: the loop goes on with
  the entries after them, on a configuration whose implementation is \<open>i\<close>.
\<close>

lemma Parse_loop_passes:
  "\<forall>x\<in>set before. \<exists>v. detected (Value x) = Some (i, v) \<Longrightarrow>
   MPIImplem c = '''' \<or> MPIImplem c = i \<Longrightarrow>
   \<exists>c'. Parse_loop (before @ rest) c = Parse_loop rest c'
        \<and> MPIImplem c' = (if before = [] then MPIImplem c else i)"
proof (induction before arbitrary: c)
  case Nil
  show ?case by (rule exI [of _ c]) simp
next
  case (Cons kv before)
  from Cons.prems(1) obtain v where d: "detected (Value kv) = Some (i, v)" by auto
  from Cons.prems(1) have rest: "\<forall>x\<in>set before. \<exists>v. detected (Value x) = Some (i, v)"
    by simp
  let ?c1 = "c\<lparr>MPIImplem := i, MpiMap := (MpiMap c)(v \<mapsto> Value kv)\<rparr>"
  let ?c2 = "c\<lparr>MpiMap := (MpiMap c)(v \<mapsto> Value kv)\<rparr>"
  show ?case
  proof (cases "MPIImplem c = ''''")
    case True
    have "MPIImplem ?c1 = '''' \<or> MPIImplem ?c1 = i" by simp
    from Cons.IH [OF rest this] obtain c' where
      "Parse_loop (before @ rest) ?c1 = Parse_loop rest c'"
      "MPIImplem c' = (if before = [] then MPIImplem ?c1 else i)"
      by blast
    with True show ?thesis
      by (auto simp: Parse_loop_step [OF d])
  next
    case False
    with Cons.prems(2) have same: "MPIImplem c = i" by simp
    then have "MPIImplem ?c2 = '''' \<or> MPIImplem ?c2 = i" by simp
    from Cons.IH [OF rest this] obtain c' where
      "Parse_loop (before @ rest) ?c2 = Parse_loop rest c'"
      "MPIImplem c' = (if before = [] then MPIImplem ?c2 else i)"
      by blast
    with False same show ?thesis
      by (auto simp: Parse_loop_step [OF d])
  qed
qed

text \<open>
  At an entry on which \<open>detectMpiImplem\<close> returns an empty implementation or version,
  the loop returns the detection error.
\<close>

lemma Parse_loop_CannotDetect:
  "detectMpiImplem (Value kv) = Inr (implem, version) \<Longrightarrow> implem = '''' \<or> version = '''' \<Longrightarrow>
   Parse_loop (kv # kvs) c = Inl (CannotDetect (Value kv))"
  by (simp add: Parse_loop.simps(2))

lemma Parse_loop_first_undetected:
  assumes "\<forall>x\<in>set before. \<exists>v. detected (Value x) = Some (i, v)"
    and "detectMpiImplem (Value kv) = Inr (implem, version)"
    and "implem = '''' \<or> version = ''''"
    and "MPIImplem c = '''' \<or> MPIImplem c = i"
  shows "Parse_loop (before @ kv # after) c = Inl (CannotDetect (Value kv))"
proof -
  from Parse_loop_passes [OF assms(1,4), of "kv # after"] obtain c' where
    "Parse_loop (before @ kv # after) c = Parse_loop (kv # after) c'"
    by blast
  with Parse_loop_CannotDetect [OF assms(2,3)] show ?thesis by simp
qed

lemma Parse_loop_first_conflict:
  assumes "\<forall>x\<in>set before. \<exists>v. detected (Value x) = Some (i, v)"
    and "before \<noteq> []"
    and "detected (Value kv) = Some (i', v')"
    and "i' \<noteq> i"
    and "MPIImplem c = '''' \<or> MPIImplem c = i"
  shows "Parse_loop (before @ kv # after) c = Inl (TwoImplementations i i')"
proof -
  from Parse_loop_passes [OF assms(1,5), of "kv # after"] assms(2) obtain c' where
    c': "Parse_loop (before @ kv # after) c = Parse_loop (kv # after) c'" "MPIImplem c' = i"
    by auto
  from assms(2) obtain x where "x \<in> set before" by (cases before) auto
  with assms(1) obtain v where "detected (Value x) = Some (i, v)" by blast
  from detected_SomeD [OF this] have "i \<noteq> ''''" by simp
  with c' assms(4) show ?thesis
    by (simp add: Parse_loop_step [OF assms(3)])
qed

text \<open>
  When the entries before an undetected one are all detected, to whatever
  implementations, the loop returns an error: the detection error, or the conflict of
  two implementations met before.
\<close>

lemma Parse_loop_undetected_error:
  assumes "\<forall>x\<in>set before. detected (Value x) \<noteq> None"
    and "detectMpiImplem (Value kv) = Inr (implem, version)"
    and "implem = '''' \<or> version = ''''"
  shows "Parse_loop (before @ kv # after) c = Inl (CannotDetect (Value kv))
         \<or> (\<exists>a b. a \<noteq> b \<and> Parse_loop (before @ kv # after) c = Inl (TwoImplementations a b))"
  using assms(1)
proof (induction before arbitrary: c)
  case Nil
  from Parse_loop_CannotDetect [OF assms(2,3)] show ?case by simp
next
  case (Cons x before)
  from Cons.prems obtain i v where d: "detected (Value x) = Some (i, v)" by auto
  from Cons.prems have rest: "\<forall>x\<in>set before. detected (Value x) \<noteq> None" by simp
  from Cons.IH [OF rest] show ?case
    by (auto simp: Parse_loop_step [OF d])
qed

lemma Parse_unfold:
  "LoadKeyValueConfig file = Inr kvs \<Longrightarrow>
   Parse LoadKeyValueConfig file =
     Parse_loop kvs \<lparr>filename = file, MPIImplem = '''', MpiMap = Map.empty\<rparr>"
  by (simp add: Parse_def)

text \<open>
  C4, counterexample. \<open>Parse\<close> on a file with zero entries returns a configuration (with
  an empty implementation and an empty map) and no error.
\<close>

theorem Parse_accepts_zero_entries:
  "Parse (loaded []) ''openmpi.conf'' =
     Inr \<lparr>filename = ''openmpi.conf'', MPIImplem = '''', MpiMap = Map.empty\<rparr>"
  by (simp add: Parse_def loaded_def)

text \<open>
  C4, as amended. When the loader returns the entries \<open>kvs\<close>. With zero entries \<open>Parse\<close>
  succeeds and returns the configuration with an empty implementation and an empty
  version map. When detection fails on any entry, \<open>Parse\<close> returns no configuration. When
  the entries before an entry \<open>kv\<close>, on which \<open>detectMpiImplem\<close> returns an empty
  implementation or version, all detect to one implementation, \<open>Parse\<close> returns the
  detection error for \<open>kv\<close>, whatever follows \<open>kv\<close>; when they are all detected, to
  whatever implementations, \<open>Parse\<close> returns the detection error for \<open>kv\<close> or the conflict
  of two implementations.
\<close>

theorem Parse_construction:
  assumes "LoadKeyValueConfig file = Inr kvs"
  shows "(kvs = [] \<longrightarrow>
            Parse LoadKeyValueConfig file =
              Inr \<lparr>filename = file, MPIImplem = '''', MpiMap = Map.empty\<rparr>)
         \<and> ((\<exists>kv\<in>set kvs. detected (Value kv) = None) \<longrightarrow>
              (\<forall>config. Parse LoadKeyValueConfig file \<noteq> Inr config))
         \<and> (kvs = before @ kv # after
              \<and> (\<forall>x\<in>set before. \<exists>v. detected (Value x) = Some (i, v))
              \<and> detectMpiImplem (Value kv) = Inr (implem, version)
              \<and> (implem = '''' \<or> version = '''') \<longrightarrow>
              Parse LoadKeyValueConfig file = Inl (CannotDetect (Value kv)))
         \<and> (kvs = before @ kv # after
              \<and> (\<forall>x\<in>set before. detected (Value x) \<noteq> None)
              \<and> detectMpiImplem (Value kv) = Inr (implem, version)
              \<and> (implem = '''' \<or> version = '''') \<longrightarrow>
              Parse LoadKeyValueConfig file = Inl (CannotDetect (Value kv))
              \<or> (\<exists>a b. a \<noteq> b
                    \<and> Parse LoadKeyValueConfig file = Inl (TwoImplementations a b)))"
proof -
  let ?c0 = "\<lparr>filename = file, MPIImplem = '''', MpiMap = Map.empty\<rparr>"
  have unfold: "Parse LoadKeyValueConfig file = Parse_loop kvs ?c0"
    using assms by (simp add: Parse_def)
  have empty: "Parse LoadKeyValueConfig file = Inr ?c0" if "kvs = []"
    using that by (simp add: unfold)
  have none: "Parse LoadKeyValueConfig file \<noteq> Inr config"
    if bad: "\<exists>kv\<in>set kvs. detected (Value kv) = None" for config
  proof
    assume "Parse LoadKeyValueConfig file = Inr config"
    then have "Parse_loop kvs ?c0 = Inr config" by (simp add: unfold)
    from Parse_loop_Inr_implem [OF this] bad show False by auto
  qed
  have exact: "Parse LoadKeyValueConfig file = Inl (CannotDetect (Value kv))"
    if "kvs = before @ kv # after"
      and "\<forall>x\<in>set before. \<exists>v. detected (Value x) = Some (i, v)"
      and "detectMpiImplem (Value kv) = Inr (implem, version)"
      and "implem = '''' \<or> version = ''''"
  proof -
    have "MPIImplem ?c0 = '''' \<or> MPIImplem ?c0 = i" by simp
    from Parse_loop_first_undetected [OF that(2,3,4) this, of after] show ?thesis
      by (simp add: unfold that(1))
  qed
  have error: "Parse LoadKeyValueConfig file = Inl (CannotDetect (Value kv))
      \<or> (\<exists>a b. a \<noteq> b \<and> Parse LoadKeyValueConfig file = Inl (TwoImplementations a b))"
    if "kvs = before @ kv # after"
      and "\<forall>x\<in>set before. detected (Value x) \<noteq> None"
      and "detectMpiImplem (Value kv) = Inr (implem, version)"
      and "implem = '''' \<or> version = ''''"
    using Parse_loop_undetected_error [OF that(2,3,4), of after ?c0]
    by (simp add: unfold that(1))
  from empty none exact error show ?thesis by blast
qed

text \<open>
  Witness for C4: the second of two entries has no \<open>.tar\<close>; the load returns the
  detection error for it.
\<close>

theorem Parse_construction_witness:
  "Parse (loaded [entry ''a'' ''openmpi-3.0.4.tar.bz2'', entry ''b'' ''openmpi-3.1.0.zip''])
     ''openmpi.conf'' = Inl (CannotDetect ''openmpi-3.1.0.zip'')"
proof -
  let ?a = "entry ''a'' ''openmpi-3.0.4.tar.bz2''" and ?b = "entry ''b'' ''openmpi-3.1.0.zip''"
  have h1: "loaded [?a, ?b] ''openmpi.conf'' = Inr [?a, ?b]"
    by (simp add: loaded_def)
  have da: "detected (Value ?a) = Some (''openmpi'', ''3.0.4'')" by code_simp
  have db: "detectMpiImplem (Value ?b) = Inr ('''', '''')" by code_simp
  have vb: "Value ?b = ''openmpi-3.1.0.zip''" by (simp add: entry_def)
  have "[?a, ?b] = [?a] @ ?b # []
        \<and> (\<forall>x\<in>set [?a]. \<exists>v. detected (Value x) = Some (''openmpi'', v))
        \<and> detectMpiImplem (Value ?b) = Inr ('''', '''')
        \<and> ('''' = '''' \<or> '''' = '''') \<longrightarrow>
      Parse (loaded [?a, ?b]) ''openmpi.conf'' = Inl (CannotDetect (Value ?b))"
    using Parse_construction [of "loaded [?a, ?b]" "''openmpi.conf''", OF h1,
        where before = "[?a]" and kv = "?b" and after = "[]" and i = "''openmpi''"
          and implem = "''''" and version = "''''"]
    by blast
  with da db show ?thesis
    by (simp add: vb)
qed

text \<open>
  C5, counterexample. The file holds an Open MPI entry and an MPICH entry, which detect
  to different families, after an entry on which detection fails: \<open>Parse\<close> stops at the
  first entry with the detection error, not with the conflict of implementations.
\<close>

theorem Parse_mixed_families_other_error:
  "Parse (loaded [entry ''a'' ''openmpi-3.0.4.zip'', entry ''b'' ''openmpi-3.1.0.tar.bz2'',
                  entry ''c'' ''mpich-3.3.tar.gz'']) ''mpi.conf''
     = Inl (CannotDetect ''openmpi-3.0.4.zip'')
   \<and> detected ''openmpi-3.1.0.tar.bz2'' = Some (''openmpi'', ''3.1.0'')
   \<and> detected ''mpich-3.3.tar.gz'' = Some (''mpich'', ''3.3'')"
proof -
  have "detectMpiImplem ''openmpi-3.0.4.zip'' = Inr ('''', '''')" by code_simp
  then have "Parse (loaded [entry ''a'' ''openmpi-3.0.4.zip'', entry ''b'' ''openmpi-3.1.0.tar.bz2'',
                  entry ''c'' ''mpich-3.3.tar.gz'']) ''mpi.conf''
     = Inl (CannotDetect ''openmpi-3.0.4.zip'')"
    by (simp add: Parse_def loaded_def entry_def Parse_loop.simps)
  moreover have "detected ''openmpi-3.1.0.tar.bz2'' = Some (''openmpi'', ''3.1.0'')" by code_simp
  moreover have "detected ''mpich-3.3.tar.gz'' = Some (''mpich'', ''3.3'')" by code_simp
  ultimately show ?thesis by simp
qed

text \<open>
  C5, as amended. When the loader returns the entries \<open>kvs\<close>. Every configuration that
  \<open>Parse\<close> returns has all entries detecting to its \<open>MPIImplem\<close>. If two entries detect
  to different implementations, \<open>Parse\<close> returns no configuration, whatever their order.
  At the first entry \<open>kv\<close> that detects to another implementation than the entries before
  it, which all detect to \<open>i\<close>, \<open>Parse\<close> returns the conflict of \<open>i\<close> and the
  implementation of \<open>kv\<close>, whatever follows \<open>kv\<close>. And if \<open>kv1\<close> and, later, \<open>kv2\<close> detect
  to different implementations and the other entries before \<open>kv2\<close> are all detected,
  \<open>Parse\<close> returns a conflict of two implementations.
\<close>

theorem Parse_single_implementation:
  assumes "LoadKeyValueConfig file = Inr kvs"
  shows "(\<forall>config. Parse LoadKeyValueConfig file = Inr config \<longrightarrow>
            (\<forall>kv\<in>set kvs. \<exists>v. detected (Value kv) = Some (MPIImplem config, v)))
         \<and> ((\<exists>kv1\<in>set kvs. \<exists>kv2\<in>set kvs. \<exists>i1 v1 i2 v2.
                detected (Value kv1) = Some (i1, v1) \<and> detected (Value kv2) = Some (i2, v2)
                \<and> i1 \<noteq> i2) \<longrightarrow>
              (\<forall>config. Parse LoadKeyValueConfig file \<noteq> Inr config))
         \<and> (kvs = before @ kv # after \<and> before \<noteq> []
              \<and> (\<forall>x\<in>set before. \<exists>v. detected (Value x) = Some (i, v))
              \<and> detected (Value kv) = Some (i', v') \<and> i' \<noteq> i \<longrightarrow>
              Parse LoadKeyValueConfig file = Inl (TwoImplementations i i'))
         \<and> (kvs = xs @ kv1 # ys @ kv2 # zs
              \<and> detected (Value kv1) = Some (i1, v1) \<and> detected (Value kv2) = Some (i2, v2)
              \<and> i1 \<noteq> i2 \<and> (\<forall>x\<in>set (xs @ ys). detected (Value x) \<noteq> None) \<longrightarrow>
              (\<exists>a b. a \<noteq> b
                 \<and> Parse LoadKeyValueConfig file = Inl (TwoImplementations a b)))"
proof -
  let ?c0 = "\<lparr>filename = file, MPIImplem = '''', MpiMap = Map.empty\<rparr>"
  have unfold: "Parse LoadKeyValueConfig file = Parse_loop kvs ?c0"
    using assms by (simp add: Parse_def)
  have same: "\<forall>kv\<in>set kvs. \<exists>v. detected (Value kv) = Some (MPIImplem config, v)"
    if "Parse LoadKeyValueConfig file = Inr config" for config
    using that Parse_loop_Inr_implem [of kvs ?c0 config] by (simp add: unfold)
  have never: "Parse LoadKeyValueConfig file \<noteq> Inr config"
    if d1: "detected (Value k1) = Some (j1, u1)" and d2: "detected (Value k2) = Some (j2, u2)"
      and ne: "j1 \<noteq> j2" and in1: "k1 \<in> set kvs" and in2: "k2 \<in> set kvs"
    for k1 k2 j1 u1 j2 u2 config
  proof
    assume ok: "Parse LoadKeyValueConfig file = Inr config"
    from same [OF ok] in1 in2 d1 d2 have "j1 = MPIImplem config" "j2 = MPIImplem config"
      by auto
    with ne show False by simp
  qed
  have first: "Parse LoadKeyValueConfig file = Inl (TwoImplementations i i')"
    if "kvs = before @ kv # after" and "before \<noteq> []"
      and "\<forall>x\<in>set before. \<exists>v. detected (Value x) = Some (i, v)"
      and "detected (Value kv) = Some (i', v')" and "i' \<noteq> i"
  proof -
    have "MPIImplem ?c0 = '''' \<or> MPIImplem ?c0 = i" by simp
    from Parse_loop_first_conflict [OF that(3,2,4,5) this, of after] show ?thesis
      by (simp add: unfold that(1))
  qed
  have pair: "\<exists>a b. a \<noteq> b \<and> Parse LoadKeyValueConfig file = Inl (TwoImplementations a b)"
    if split: "kvs = xs @ kv1 # ys @ kv2 # zs"
      and d1: "detected (Value kv1) = Some (i1, v1)"
      and d2: "detected (Value kv2) = Some (i2, v2)"
      and ne: "i1 \<noteq> i2"
      and others: "\<forall>x\<in>set (xs @ ys). detected (Value x) \<noteq> None"
  proof -
    let ?reached = "xs @ kv1 # ys @ [kv2]"
    from d1 d2 others have all: "\<forall>x\<in>set ?reached. detected (Value x) \<noteq> None"
      by auto
    have "\<exists>err. Parse_loop ?reached ?c0 = Inl err"
    proof (cases "Parse_loop ?reached ?c0")
      case (Inl err)
      then show ?thesis by blast
    next
      case (Inr config)
      from Parse_loop_Inr_implem [OF this] d1 d2 have "i1 = MPIImplem config" "i2 = MPIImplem config"
        by auto
      with ne show ?thesis by simp
    qed
    then obtain err where err: "Parse_loop ?reached ?c0 = Inl err" by blast
    from Parse_loop_fails_with_conflict [OF all err] obtain a b where
      ab: "a \<noteq> b" "err = TwoImplementations a b"
      by blast
    from Parse_loop_Inl_append [OF err, of zs] have "Parse_loop kvs ?c0 = Inl err"
      by (simp add: split)
    with ab show ?thesis by (auto simp: unfold)
  qed
  from same never first pair show ?thesis by blast
qed

text \<open>
  Witness for C5: an MPICH and an Open MPI entry, in both orders; in the second file an
  entry that is not detected follows them and is not reached.
\<close>

theorem Parse_single_implementation_witness:
  "Parse (loaded [entry ''a'' ''mpich-3.3.tar.gz'', entry ''b'' ''openmpi-3.1.0.tar.bz2''])
     ''mpi.conf'' = Inl (TwoImplementations ''mpich'' ''openmpi'')
   \<and> Parse (loaded [entry ''b'' ''openmpi-3.1.0.tar.bz2'', entry ''a'' ''mpich-3.3.tar.gz'',
                    entry ''c'' ''garbage'']) ''mpi.conf''
       = Inl (TwoImplementations ''openmpi'' ''mpich'')"
proof -
  let ?a = "entry ''a'' ''mpich-3.3.tar.gz''" and ?b = "entry ''b'' ''openmpi-3.1.0.tar.bz2''"
  let ?c = "entry ''c'' ''garbage''"
  have da: "detected (Value ?a) = Some (''mpich'', ''3.3'')" by code_simp
  have db: "detected (Value ?b) = Some (''openmpi'', ''3.1.0'')" by code_simp
  have l1: "loaded [?a, ?b] ''mpi.conf'' = Inr [?a, ?b]" by (simp add: loaded_def)
  have l2: "loaded [?b, ?a, ?c] ''mpi.conf'' = Inr [?b, ?a, ?c]" by (simp add: loaded_def)
  have "[?a, ?b] = [?a] @ ?b # [] \<and> [?a] \<noteq> []
        \<and> (\<forall>x\<in>set [?a]. \<exists>v. detected (Value x) = Some (''mpich'', v))
        \<and> detected (Value ?b) = Some (''openmpi'', ''3.1.0'') \<and> ''openmpi'' \<noteq> ''mpich'' \<longrightarrow>
      Parse (loaded [?a, ?b]) ''mpi.conf'' = Inl (TwoImplementations ''mpich'' ''openmpi'')"
    using Parse_single_implementation [of "loaded [?a, ?b]" "''mpi.conf''", OF l1,
        where before = "[?a]" and kv = "?b" and after = "[]" and i = "''mpich''"
          and i' = "''openmpi''" and v' = "''3.1.0''"]
    by blast
  with da db have first: "Parse (loaded [?a, ?b]) ''mpi.conf''
      = Inl (TwoImplementations ''mpich'' ''openmpi'')"
    by simp
  have "[?b, ?a, ?c] = [?b] @ ?a # [?c] \<and> [?b] \<noteq> []
        \<and> (\<forall>x\<in>set [?b]. \<exists>v. detected (Value x) = Some (''openmpi'', v))
        \<and> detected (Value ?a) = Some (''mpich'', ''3.3'') \<and> ''mpich'' \<noteq> ''openmpi'' \<longrightarrow>
      Parse (loaded [?b, ?a, ?c]) ''mpi.conf'' = Inl (TwoImplementations ''openmpi'' ''mpich'')"
    using Parse_single_implementation [of "loaded [?b, ?a, ?c]" "''mpi.conf''", OF l2,
        where before = "[?b]" and kv = "?a" and after = "[?c]" and i = "''openmpi''"
          and i' = "''mpich''" and v' = "''3.3''"]
    by blast
  with da db have second: "Parse (loaded [?b, ?a, ?c]) ''mpi.conf''
      = Inl (TwoImplementations ''openmpi'' ''mpich'')"
    by simp
  from first second show ?thesis by simp
qed

text \<open>
  C9. When every entry detects to the same implementation, and \<open>e2\<close> is the last entry
  producing the version that the earlier entry \<open>e1\<close> produces too, \<open>Parse\<close> succeeds and
  the version map holds the value of \<open>e2\<close> for that version: the later entry has
  overwritten the earlier one.
\<close>

theorem Parse_last_write_wins:
  assumes "LoadKeyValueConfig file = Inr kvs"
    and "kvs = xs @ e1 # ys @ e2 # zs"
    and "\<forall>kv\<in>set kvs. \<exists>v. detected (Value kv) = Some (implem, v)"
    and "version_of (Value e1) = version_of (Value e2)"
    and "\<forall>z\<in>set zs. version_of (Value z) \<noteq> version_of (Value e2)"
  shows "\<exists>config. Parse LoadKeyValueConfig file = Inr config
           \<and> MPIImplem config = implem
           \<and> MpiMap config (version_of (Value e1)) = Some (Value e2)"
proof -
  let ?c0 = "\<lparr>filename = file, MPIImplem = '''', MpiMap = Map.empty\<rparr>"
  from Parse_loop_succeeds [OF assms(3), of ?c0]
  obtain config where ok: "Parse_loop kvs ?c0 = Inr config" by auto
  have "e2 \<in> set kvs" by (simp add: assms(2))
  with Parse_loop_Inr_implem [OF ok] assms(3) have "MPIImplem config = implem"
    by fastforce
  moreover have "MpiMap config (version_of (Value e1)) = Some (Value e2)"
    using Parse_loop_Inr_map [OF ok] fold_store_last [OF assms(5), of "xs @ e1 # ys"]
    by (simp add: assms(2,4))
  ultimately show ?thesis
    using ok by (simp add: Parse_unfold [of LoadKeyValueConfig "file" kvs, OF assms(1)])
qed

text \<open>Witness for C9: two locations of Open MPI 3.0.4; the map keeps the second.\<close>

theorem Parse_last_write_wins_witness:
  "\<exists>config. Parse (loaded [entry ''a'' ''http://one/openmpi-3.0.4.tar.bz2'',
                            entry ''b'' ''http://two/openmpi-3.0.4.tar.gz'']) ''openmpi.conf''
               = Inr config
     \<and> MPIImplem config = ''openmpi''
     \<and> MpiMap config ''3.0.4'' = Some ''http://two/openmpi-3.0.4.tar.gz''"
proof -
  let ?a = "entry ''a'' ''http://one/openmpi-3.0.4.tar.bz2''"
  let ?b = "entry ''b'' ''http://two/openmpi-3.0.4.tar.gz''"
  have da: "detected (Value ?a) = Some (''openmpi'', ''3.0.4'')" by code_simp
  have db: "detected (Value ?b) = Some (''openmpi'', ''3.0.4'')" by code_simp
  have va: "version_of (Value ?a) = ''3.0.4''" by (simp add: version_of_def da)
  have vb: "version_of (Value ?b) = ''3.0.4''" by (simp add: version_of_def db)
  have h1: "loaded [?a, ?b] ''openmpi.conf'' = Inr [?a, ?b]" by (simp add: loaded_def)
  have h2: "[?a, ?b] = [] @ ?a # [] @ ?b # []" by simp
  have h3: "\<forall>kv\<in>set [?a, ?b]. \<exists>v. detected (Value kv) = Some (''openmpi'', v)"
    using da db by simp
  have h4: "version_of (Value ?a) = version_of (Value ?b)" by (simp only: va vb)
  have h5: "\<forall>z\<in>set []. version_of (Value z) \<noteq> version_of (Value ?b)" by simp
  have vb2: "Value ?b = ''http://two/openmpi-3.0.4.tar.gz''" by (simp add: entry_def)
  from Parse_last_write_wins [of "loaded [?a, ?b]" "''openmpi.conf''", OF h1 h2 h3 h4 h5]
  show ?thesis
    by (simp only: va vb2)
qed

section \<open>Properties of \<open>getListExperiments\<close>\<close>

lemma ranges_over_keys:
  assumes "ranges_over m kvs"
  shows "fst ` set kvs = dom m" and "length kvs = card (dom m)" and "distinct (map fst kvs)"
proof -
  from assms have d: "distinct (map fst kvs)" and m: "map_of kvs = m"
    by (simp_all add: ranges_over_def)
  have "dom (map_of kvs) = fst ` set kvs"
    by (rule dom_map_of_conv_image_fst)
  with m show keys: "fst ` set kvs = dom m"
    by simp
  from d have "card (set (map fst kvs)) = length (map fst kvs)"
    by (rule distinct_card)
  with keys show "length kvs = card (dom m)" by simp
  from d show "distinct (map fst kvs)" .
qed

lemma ranges_over_value:
  "ranges_over m kvs \<Longrightarrow> kv \<in> set kvs \<Longrightarrow> m (fst kv) = Some (snd kv)"
  by (cases kv) (auto simp: ranges_over_def)

lemma identity_newExperiment: "identity (newExperiment config h c) = (fst h, fst c)"
  by (simp add: identity_def newExperiment_def)

lemma identities_getListExperiments:
  "map identity (getListExperiments config outer inner) =
     concat (map (\<lambda>h. map (\<lambda>c. (fst h, fst c)) (inner (fst h))) outer)"
  by (simp add: getListExperiments_def map_concat comp_def identity_newExperiment)

lemma length_pairs:
  "\<forall>h\<in>set hs. length (inner (fst h)) = k \<Longrightarrow>
   length (concat (map (\<lambda>h. map (f h) (inner (fst h))) hs)) = length hs * k"
  by (induction hs) simp_all

lemma set_pairs:
  "\<forall>h\<in>set hs. fst ` set (inner (fst h)) = K \<Longrightarrow>
   set (concat (map (\<lambda>h. map (\<lambda>c. (fst h, fst c)) (inner (fst h))) hs)) = fst ` set hs \<times> K"
  by (induction hs) auto

lemma distinct_pairs:
  "distinct (map fst hs) \<Longrightarrow> \<forall>h\<in>set hs. distinct (map fst (inner (fst h))) \<Longrightarrow>
   distinct (concat (map (\<lambda>h. map (\<lambda>c. (fst h, fst c)) (inner (fst h))) hs))"
proof (induction hs)
  case Nil
  then show ?case by simp
next
  case (Cons h hs)
  have "distinct (map (\<lambda>c. (fst h, fst c)) (inner (fst h)))"
    using Cons.prems(2) by (simp add: distinct_map inj_on_def)
  moreover have "distinct (concat (map (\<lambda>h. map (\<lambda>c. (fst h, fst c)) (inner (fst h))) hs))"
    using Cons by simp
  moreover have "set (map (\<lambda>c. (fst h, fst c)) (inner (fst h)))
      \<inter> set (concat (map (\<lambda>h. map (\<lambda>c. (fst h, fst c)) (inner (fst h))) hs)) = {}"
    using Cons.prems(1) by auto
  ultimately show ?case by simp
qed

lemma one_with_key:
  "distinct (map fst cs) \<Longrightarrow> k \<in> fst ` set cs \<Longrightarrow> length (filter (\<lambda>c. k = fst c) cs) = 1"
proof (induction cs)
  case Nil
  then show ?case by simp
next
  case (Cons c cs)
  show ?case
  proof (cases "k = fst c")
    case True
    with Cons.prems(1) have "filter (\<lambda>c. k = fst c) cs = []"
      by (auto simp: filter_empty_conv)
    with True show ?thesis by simp
  next
    case False
    with Cons show ?thesis by auto
  qed
qed

lemma length_diagonal:
  "\<forall>h\<in>set hs. distinct (map fst (inner (fst h))) \<and> fst h \<in> fst ` set (inner (fst h)) \<Longrightarrow>
   length (filter (\<lambda>p. fst p = snd p)
     (concat (map (\<lambda>h. map (\<lambda>c. (fst h, fst c)) (inner (fst h))) hs))) = length hs"
proof (induction hs)
  case Nil
  then show ?case by simp
next
  case (Cons h hs)
  have "filter (\<lambda>p. fst p = snd p) (map (\<lambda>c. (fst h, fst c)) (inner (fst h)))
      = map (\<lambda>c. (fst h, fst c)) (filter (\<lambda>c. fst h = fst c) (inner (fst h)))"
    by (simp add: filter_map comp_def)
  moreover have "length (filter (\<lambda>c. fst h = fst c) (inner (fst h))) = 1"
    using Cons.prems by (simp add: one_with_key)
  ultimately show ?case using Cons by simp
qed

text \<open>
  C7. For a configuration whose map holds \<open>k\<close> versions, whatever the orders in which
  the two loops traverse the map, \<open>getListExperiments\<close> returns exactly \<open>k\<^sup>2\<close>
  experiments; their identities (host version, container version) are pairwise
  different and are exactly the Cartesian product of the versions with themselves; and
  exactly \<open>k\<close> of them pair a version with itself.
\<close>

theorem getListExperiments_cartesian:
  assumes "ranges_over (MpiMap config) outer"
    and "\<forall>mpi1\<in>dom (MpiMap config). ranges_over (MpiMap config) (inner mpi1)"
  shows "length (getListExperiments config outer inner) = (card (dom (MpiMap config)))\<^sup>2
    \<and> set (map identity (getListExperiments config outer inner))
        = dom (MpiMap config) \<times> dom (MpiMap config)
    \<and> distinct (map identity (getListExperiments config outer inner))
    \<and> length (filter (\<lambda>e. Version (HostMPI e) = Version (ContainerMPI e))
        (getListExperiments config outer inner)) = card (dom (MpiMap config))"
proof -
  let ?m = "MpiMap config" and ?exps = "getListExperiments config outer inner"
  let ?ids = "concat (map (\<lambda>h. map (\<lambda>c. (fst h, fst c)) (inner (fst h))) outer)"
  note out = ranges_over_keys [OF assms(1)]
  have inn: "fst ` set (inner (fst h)) = dom ?m" "length (inner (fst h)) = card (dom ?m)"
    "distinct (map fst (inner (fst h)))" if "h \<in> set outer" for h
  proof -
    from that out(1) have "fst h \<in> dom ?m" by blast
    with assms(2) have "ranges_over ?m (inner (fst h))" by blast
    from ranges_over_keys [OF this]
    show "fst ` set (inner (fst h)) = dom ?m" "length (inner (fst h)) = card (dom ?m)"
      "distinct (map fst (inner (fst h)))" .
  qed
  have ids: "map identity ?exps = ?ids"
    by (rule identities_getListExperiments)
  have "length ?exps = length outer * card (dom ?m)"
    unfolding getListExperiments_def
    by (rule length_pairs) (simp add: inn)
  then have len: "length ?exps = (card (dom ?m))\<^sup>2"
    by (simp add: out(2) power2_eq_square)
  have "set ?ids = fst ` set outer \<times> dom ?m"
    by (rule set_pairs) (simp add: inn)
  then have set_ids: "set (map identity ?exps) = dom ?m \<times> dom ?m"
    by (simp only: ids out(1))
  have "distinct ?ids"
    by (rule distinct_pairs) (simp_all add: out(3) inn)
  then have dist: "distinct (map identity ?exps)"
    by (simp only: ids)
  have in_own: "fst h \<in> fst ` set (inner (fst h))" if "h \<in> set outer" for h
    using that inn(1) [OF that] out(1) by blast
  have "length (filter (\<lambda>e. Version (HostMPI e) = Version (ContainerMPI e)) ?exps)
      = length (filter (\<lambda>p. fst p = snd p) (map identity ?exps))"
    by (simp add: filter_map comp_def identity_def)
  also have "\<dots> = length (filter (\<lambda>p. fst p = snd p) ?ids)"
    by (simp only: ids)
  also have "\<dots> = length outer"
    by (rule length_diagonal) (use inn(3) in_own in blast)
  finally have diag: "length (filter (\<lambda>e. Version (HostMPI e) = Version (ContainerMPI e)) ?exps)
      = card (dom ?m)"
    by (simp add: out(2))
  from len set_ids dist diag show ?thesis by blast
qed

text \<open>Witness for C7: two versions give four experiments, two of them self-paired.\<close>

theorem getListExperiments_cartesian_witness:
  "length (getListExperiments two_versions forwards inner_order) = 4
   \<and> set (map identity (getListExperiments two_versions forwards inner_order))
       = {''3.0.4'', ''3.1.0''} \<times> {''3.0.4'', ''3.1.0''}
   \<and> length (filter (\<lambda>e. Version (HostMPI e) = Version (ContainerMPI e))
        (getListExperiments two_versions forwards inner_order)) = 2"
proof -
  have m: "MpiMap two_versions = map_of forwards"
    by (simp add: two_versions_def)
  have rev_same: "map_of backwards = map_of forwards"
    by (rule ext) (simp add: backwards_def forwards_def)
  have h1: "ranges_over (MpiMap two_versions) forwards"
    by (simp add: ranges_over_def m) (simp add: forwards_def)
  have fw: "ranges_over (MpiMap two_versions) forwards"
    and bw: "ranges_over (MpiMap two_versions) backwards"
    using h1 by (simp_all add: ranges_over_def m rev_same) (simp add: backwards_def)
  have h2: "\<forall>mpi1\<in>dom (MpiMap two_versions). ranges_over (MpiMap two_versions) (inner_order mpi1)"
    using fw bw by (simp add: inner_order_def)
  have d: "dom (MpiMap two_versions) = {''3.0.4'', ''3.1.0''}"
    by (auto simp: m forwards_def)
  then have c: "card (dom (MpiMap two_versions)) = 2"
    by simp
  have sq: "(card (dom (MpiMap two_versions)))\<^sup>2 = 4"
    by (simp add: c)
  from getListExperiments_cartesian [OF h1 h2] show ?thesis
    unfolding sq by (simp add: c d)
qed

section \<open>Properties of the batch runner\<close>

declare iterations.simps [simp del]

lemma runExperiment_cases:
  obtains r w' where "runExperiment env e sysCfg w = ((r, None), w')"
  | r msg w' where "runExperiment env e sysCfg w = ((r, Some msg), w')"
proof (cases "runExperiment env e sysCfg w")
  case (Pair a w')
  then show ?thesis
    using that by (cases a; cases "snd a") auto
qed

lemma iterations_stop:
  "\<not> i < Nrun sysCfg \<Longrightarrow> iterations env sysCfg e i l st = (None, l, st)"
  by (subst iterations.simps) simp

lemma iterations_error:
  "i < Nrun sysCfg \<Longrightarrow> runExperiment env e sysCfg (world st) = ((r, Some msg), w) \<Longrightarrow>
   iterations env sysCfg e i l st =
     (Some (FailureDuringExecution msg), l\<lparr>newRes := r\<rparr>, st\<lparr>world := w\<rparr>)"
  by (subst iterations.simps) simp

lemma iterations_step:
  "i < Nrun sysCfg \<Longrightarrow> runExperiment env e sysCfg (world st) = ((r, None), w) \<Longrightarrow>
   iterations env sysCfg e i l st =
     iterations env sysCfg e (i + 1)
       (l\<lparr>newRes := r, success := success l \<and> Pass r\<rparr>)
       (st\<lparr>world := w, newResults := newResults st @ [r]\<rparr>)"
  by (subst iterations.simps) (simp add: Let_def)

text \<open>The flag \<open>failure\<close> and the file are the same after the inner loop as before it.\<close>

lemma iterations_keeps:
  "iterations env sysCfg e i l st = (f, l', st') \<Longrightarrow>
     failure l' = failure l \<and> written st' = written st"
proof (induction "nat (Nrun sysCfg - i)" arbitrary: i l st)
  case 0
  then show ?case by (simp add: iterations_stop)
next
  case (Suc n)
  then have less: "i < Nrun sysCfg" and n: "n = nat (Nrun sysCfg - (i + 1))" by simp_all
  show ?case
  proof (cases rule: runExperiment_cases [of env e sysCfg "world st"])
    case (1 r w)
    from Suc.prems have "iterations env sysCfg e (i + 1)
        (l\<lparr>newRes := r, success := success l \<and> Pass r\<rparr>)
        (st\<lparr>world := w, newResults := newResults st @ [r]\<rparr>) = (f, l', st')"
      by (simp add: iterations_step [OF less 1])
    from Suc.hyps(1) [OF n this] show ?thesis by simp
  next
    case (2 r msg w)
    with Suc.prems less show ?thesis by (auto simp: iterations_error)
  qed
qed

text \<open>
  The inner loop against the invocations it makes: when none of the \<open>Nrun - i\<close>
  invocations returns an error, the loop ends without a fatal exit, \<open>success\<close> holds
  iff it held before and every invocation passed, and \<open>newRes\<close> is the last result.
\<close>

lemma iterations_all_complete:
  "invocations env sysCfg e (nat (Nrun sysCfg - i)) (world st) = (rs, w') \<Longrightarrow>
   \<forall>r\<in>set rs. snd r = None \<Longrightarrow>
   iterations env sysCfg e i l st =
     (None,
      l\<lparr>newRes := (if rs = [] then newRes l else fst (last rs)),
        success := success l \<and> (\<forall>r\<in>set rs. Pass (fst r))\<rparr>,
      st\<lparr>world := w', newResults := newResults st @ map fst rs\<rparr>)"
proof (induction "nat (Nrun sysCfg - i)" arbitrary: i l st rs w')
  case 0
  then show ?case by (simp add: iterations_stop)
next
  case (Suc n)
  then have less: "i < Nrun sysCfg" and n: "n = nat (Nrun sysCfg - (i + 1))" by simp_all
  from Suc.hyps(2) have unfold: "nat (Nrun sysCfg - i) = Suc (nat (Nrun sysCfg - (i + 1)))"
    by simp
  obtain r0 w0 where first: "runExperiment env e sysCfg (world st) = (r0, w0)"
    by (cases "runExperiment env e sysCfg (world st)")
  obtain rs1 w1 where rest:
    "invocations env sysCfg e (nat (Nrun sysCfg - (i + 1))) w0 = (rs1, w1)"
    by (cases "invocations env sysCfg e (nat (Nrun sysCfg - (i + 1))) w0")
  from Suc.prems(1) first rest have rs: "rs = r0 # rs1" and w': "w' = w1"
    by (simp_all add: unfold)
  from Suc.prems(2) rs obtain r where r0: "r0 = (r, None)"
    by (cases r0) auto
  from Suc.prems(2) rs have ok: "\<forall>r\<in>set rs1. snd r = None" by simp
  let ?l1 = "l\<lparr>newRes := r, success := success l \<and> Pass r\<rparr>"
  let ?st1 = "st\<lparr>world := w0, newResults := newResults st @ [r]\<rparr>"
  have rest': "invocations env sysCfg e (nat (Nrun sysCfg - (i + 1))) (world ?st1) = (rs1, w1)"
    using rest by simp
  have "iterations env sysCfg e i l st = iterations env sysCfg e (i + 1) ?l1 ?st1"
    using first r0 by (simp add: iterations_step [OF less])
  also have "\<dots> = (None,
      ?l1\<lparr>newRes := (if rs1 = [] then newRes ?l1 else fst (last rs1)),
        success := success ?l1 \<and> (\<forall>r\<in>set rs1. Pass (fst r))\<rparr>,
      ?st1\<lparr>world := w1, newResults := newResults ?st1 @ map fst rs1\<rparr>)"
    by (rule Suc.hyps(1) [OF n rest' ok])
  finally show ?case
    by (simp add: rs w' r0)
qed

text \<open>
  When an invocation returns an error, after \<open>k\<close> invocations without one, the loop
  ends in the fatal exit: the later invocations are not made, and nothing is written.
\<close>

lemma iterations_first_error:
  "invocations env sysCfg e k (world st) = (rs, w1) \<Longrightarrow> \<forall>r\<in>set rs. snd r = None \<Longrightarrow>
   runExperiment env e sysCfg w1 = ((r, Some msg), w2) \<Longrightarrow> i + int k < Nrun sysCfg \<Longrightarrow>
   \<exists>l'. iterations env sysCfg e i l st =
     (Some (FailureDuringExecution msg), l',
      st\<lparr>world := w2, newResults := newResults st @ map fst rs\<rparr>)"
proof (induction k arbitrary: i l st rs)
  case 0
  then show ?case by (simp add: iterations_error)
next
  case (Suc k)
  from Suc.prems(4) have less: "i < Nrun sysCfg" and less': "(i + 1) + int k < Nrun sysCfg"
    by simp_all
  obtain r0 w0 where first: "runExperiment env e sysCfg (world st) = (r0, w0)"
    by (cases "runExperiment env e sysCfg (world st)")
  obtain rs1 w' where rest: "invocations env sysCfg e k w0 = (rs1, w')"
    by (cases "invocations env sysCfg e k w0")
  from Suc.prems(1) first rest have rs: "rs = r0 # rs1" and w': "w' = w1"
    by simp_all
  from Suc.prems(2) rs obtain r' where r0: "r0 = (r', None)"
    by (cases r0) auto
  from Suc.prems(2) rs have ok: "\<forall>r\<in>set rs1. snd r = None" by simp
  let ?l1 = "l\<lparr>newRes := r', success := success l \<and> Pass r'\<rparr>"
  let ?st1 = "st\<lparr>world := w0, newResults := newResults st @ [r']\<rparr>"
  have rest': "invocations env sysCfg e k (world ?st1) = (rs1, w1)"
    using rest w' by simp
  have step: "iterations env sysCfg e i l st = iterations env sysCfg e (i + 1) ?l1 ?st1"
    using first r0 by (simp add: iterations_step [OF less])
  from Suc.IH [OF rest' ok Suc.prems(3) less', of ?l1] show ?case
    by (simp add: step rs r0)
qed

lemma write_result_cases:
  obtains msg w where "WriteString env s (world st) = (Some msg, w)"
      "write_result env s st = (Some (FailedToWriteResult msg), st\<lparr>world := w\<rparr>)"
  | w where "WriteString env s (world st) = (None, w)"
      "write_result env s st = (None, st\<lparr>world := w, written := written st @ [s]\<rparr>)"
proof (cases "WriteString env s (world st)")
  case (Pair r w)
  then show ?thesis
    using that by (cases r) (auto simp: write_result_def)
qed

lemma sync_file_written: "sync_file env st = (f, st') \<Longrightarrow> written st' = written st"
  by (auto simp: sync_file_def split: prod.splits option.splits)

lemma write_then_sync_written:
  assumes "(case write_result env s st of
              (Some f, st1) \<Rightarrow> (Some f, st1)
            | (None, st1) \<Rightarrow> sync_file env st1) = (f', st')"
  shows "written st' = written st \<or> written st' = written st @ [s]"
proof (cases rule: write_result_cases [of env s st])
  case (1 msg w)
  with assms show ?thesis by auto
next
  case (2 w)
  with assms have "sync_file env (st\<lparr>world := w, written := written st @ [s]\<rparr>) = (f', st')"
    by simp
  from sync_file_written [OF this] show ?thesis by simp
qed

text \<open>With \<open>failure\<close> false, the record written is a PASS or a FAIL line, if any.\<close>

lemma record_result_written:
  assumes "\<not> failure l" and "record_result env e l st = (f, st')"
  shows "written st' = written st
         \<or> written st' = written st @ [result_line e ''PASS'' (Note (newRes l))]
         \<or> written st' = written st @ [result_line e ''FAIL'' (Note (newRes l))]"
proof (cases "success l")
  case True
  with assms have "(case write_result env (result_line e ''PASS'' (Note (newRes l))) st of
              (Some f, st1) \<Rightarrow> (Some f, st1)
            | (None, st1) \<Rightarrow> sync_file env st1) = (f, st')"
    by (simp add: record_result_def)
  from write_then_sync_written [OF this] show ?thesis by blast
next
  case False
  with assms have "(case write_result env (result_line e ''FAIL'' (Note (newRes l))) st of
              (Some f, st1) \<Rightarrow> (Some f, st1)
            | (None, st1) \<Rightarrow> sync_file env st1) = (f, st')"
    by (simp add: record_result_def)
  from write_then_sync_written [OF this] show ?thesis by blast
qed

lemma run_one_written:
  assumes "run_one env sysCfg e st = (f, st')"
  shows "\<exists>ws. written st' = written st @ ws \<and> (\<forall>s\<in>set ws. PASS_or_FAIL e s)"
proof -
  let ?l0 = "\<lparr>success = True, failure = False, newRes = zero_Result\<rparr>"
  obtain f1 l1 st1 where it: "iterations env sysCfg e 0 ?l0 st = (f1, l1, st1)"
    by (cases "iterations env sysCfg e 0 ?l0 st") auto
  from iterations_keeps [OF it] have keep: "\<not> failure l1" "written st1 = written st"
    by simp_all
  show ?thesis
  proof (cases f1)
    case (Some a)
    with assms it keep show ?thesis by (simp add: run_one_def)
  next
    case None
    with assms it have "record_result env e l1 st1 = (f, st')"
      by (simp add: run_one_def)
    from record_result_written [OF keep(1) this] keep(2) show ?thesis
      by (auto simp: PASS_or_FAIL_def)
  qed
qed

lemma run_loop_written:
  "run_loop env sysCfg es st = (f, st') \<Longrightarrow>
   \<exists>ws. written st' = written st @ ws \<and> (\<forall>s\<in>set ws. \<exists>e\<in>set es. PASS_or_FAIL e s)"
proof (induction es arbitrary: st)
  case Nil
  then show ?case by simp
next
  case (Cons e es)
  obtain f1 st1 where one: "run_one env sysCfg e st = (f1, st1)"
    by (cases "run_one env sysCfg e st")
  from run_one_written [OF one] obtain ws1 where
    ws1: "written st1 = written st @ ws1" "\<forall>s\<in>set ws1. PASS_or_FAIL e s"
    by blast
  show ?case
  proof (cases f1)
    case (Some a)
    with Cons.prems one have "st' = st1" by simp
    with ws1 show ?thesis by auto
  next
    case None
    with Cons.prems one have "run_loop env sysCfg es st1 = (f, st')" by simp
    from Cons.IH [OF this] obtain ws2 where
      ws2: "written st' = written st1 @ ws2" "\<forall>s\<in>set ws2. \<exists>e\<in>set es. PASS_or_FAIL e s"
      by blast
    from ws1 ws2 have "written st' = written st @ (ws1 @ ws2)" by simp
    moreover from ws1 ws2 have "\<forall>s\<in>set (ws1 @ ws2). \<exists>e\<in>set (e # es). PASS_or_FAIL e s"
      by auto
    ultimately show ?thesis by blast
  qed
qed

lemma run_written:
  "s \<in> set (written (snd (run env es sysCfg w))) \<Longrightarrow> \<exists>e\<in>set es. PASS_or_FAIL e s"
proof -
  assume s: "s \<in> set (written (snd (run env es sysCfg w)))"
  let ?st = "\<lparr>world = w, written = [], newResults = []\<rparr>"
  show ?thesis
  proof (cases sysCfg)
    case None
    with s show ?thesis by (simp add: run_def)
  next
    case (Some cfg)
    show ?thesis
    proof (cases "OutputFile cfg = ''''")
      case True
      with s Some show ?thesis by (simp add: run_def)
    next
      case False
      obtain ok w1 where op: "OpenResultsFile env (OutputFile cfg) w = (ok, w1)"
        by (cases "OpenResultsFile env (OutputFile cfg) w")
      show ?thesis
      proof (cases ok)
        case False
        with s Some \<open>OutputFile cfg \<noteq> ''''\<close> op show ?thesis by (simp add: run_def)
      next
        case True
        obtain f st' where loop: "run_loop env cfg es (?st\<lparr>world := w1\<rparr>) = (f, st')"
          by (cases "run_loop env cfg es (?st\<lparr>world := w1\<rparr>)")
        with s Some \<open>OutputFile cfg \<noteq> ''''\<close> op True have "s \<in> set (written st')"
          by (simp add: run_def)
        with run_loop_written [OF loop] show ?thesis by auto
      qed
    qed
  qed
qed

lemma invocations_length: "invocations env sysCfg e n w = (rs, w') \<Longrightarrow> length rs = n"
  by (induction n arbitrary: w rs) (auto split: prod.splits)

text \<open>
  An execution error in any of the \<open>Nrun\<close> invocations for an experiment ends the whole
  loop over the experiments: nothing is written for that experiment and the remaining
  experiments are not run.
\<close>

lemma run_loop_stops_at_execution_error:
  assumes "invocations env sysCfg e k (world st) = (rs, w1)"
    and "\<forall>r\<in>set rs. snd r = None"
    and "runExperiment env e sysCfg w1 = ((r, Some msg), w2)"
    and "int k < Nrun sysCfg"
  shows "run_loop env sysCfg (e # es) st =
           (Some (FailureDuringExecution msg),
            st\<lparr>world := w2, newResults := newResults st @ map fst rs\<rparr>)"
proof -
  let ?l0 = "\<lparr>success = True, failure = False, newRes = zero_Result\<rparr>"
  from assms(4) have "0 + int k < Nrun sysCfg" by simp
  from iterations_first_error [OF assms(1,2,3) this, of ?l0]
  obtain l' where "iterations env sysCfg e 0 ?l0 st =
     (Some (FailureDuringExecution msg), l',
      st\<lparr>world := w2, newResults := newResults st @ map fst rs\<rparr>)"
    by blast
  then show ?thesis by (simp add: run_one_def)
qed

lemma run_loop_append:
  "run_loop env sysCfg (xs @ ys) st =
     (case run_loop env sysCfg xs st of
        (Some f, st1) \<Rightarrow> (Some f, st1)
      | (None, st1) \<Rightarrow> run_loop env sysCfg ys st1)"
  by (induction xs arbitrary: st) (auto split: prod.splits option.splits)







subsection \<open>An execution error of the runner\<close>

text \<open>
  C1, counterexample. Two experiments with \<open>Nrun = 2\<close>, where the second invocation of
  the runner returns an execution error: \<open>run\<close> ends in the fatal exit of \<open>log.Fatalf\<close>,
  nothing has been written to the results file (no ERROR record), and the second
  experiment is never run (its outcome is still in the script).
\<close>

theorem run_aborts_on_execution_error:
  "run scripted [versions_pair ''3.0.4'' ''3.0.4'', versions_pair ''3.0.4'' ''3.1.0'']
     (Some (sysCfg_n 2))
     [outcome True ''ok'' None, outcome False '''' (Some ''cannot launch''),
      outcome True ''ok'' None]
   = (Some (FailureDuringExecution
              ''failure during the execution of the experiment: cannot launch''),
      \<lparr>world = [outcome True ''ok'' None], written = [],
       newResults = [zero_Result\<lparr>Pass := True, Note := ''ok''\<rparr>]\<rparr>)"
  by code_simp

text \<open>
  C1, as amended. For every experiment \<open>e\<close> of the batch that the loop reaches (the
  experiments \<open>before\<close> it have been run and recorded, leaving the state \<open>st1\<close>): if the
  runner returns an execution error on some iteration, after \<open>k\<close> iterations without
  one, the loop for that experiment stops at that iteration and the whole run ends
  there in a fatal exit. No record is appended for \<open>e\<close>, the experiments \<open>after\<close> it are
  not run, and the records written before stay as they are.
\<close>

theorem run_loop_aborts_at_execution_error:
  assumes "run_loop env sysCfg before st = (None, st1)"
    and "invocations env sysCfg e k (world st1) = (rs, w1)"
    and "\<forall>r\<in>set rs. snd r = None"
    and "runExperiment env e sysCfg w1 = ((r, Some msg), w2)"
    and "int k < Nrun sysCfg"
  shows "run_loop env sysCfg (before @ e # after) st =
           (Some (FailureDuringExecution msg),
            st1\<lparr>world := w2, newResults := newResults st1 @ map fst rs\<rparr>)
         \<and> written (snd (run_loop env sysCfg (before @ e # after) st)) = written st1"
proof -
  have "run_loop env sysCfg (before @ e # after) st = run_loop env sysCfg (e # after) st1"
    by (simp add: run_loop_append assms(1))
  also have "\<dots> = (Some (FailureDuringExecution msg),
            st1\<lparr>world := w2, newResults := newResults st1 @ map fst rs\<rparr>)"
    by (rule run_loop_stops_at_execution_error [OF assms(2-5)])
  finally show ?thesis by simp
qed

text \<open>Witness for C1: the first experiment passes and is recorded; the second
  invocation for the second experiment fails; the third experiment is not run.\<close>

theorem run_loop_aborts_at_execution_error_witness:
  "run_loop scripted (sysCfg_n 2)
     ([versions_pair ''3.0.4'' ''3.0.4''] @ versions_pair ''3.0.4'' ''3.1.0''
        # [versions_pair ''3.1.0'' ''3.0.4''])
     \<lparr>world = [outcome True ''a'' None, outcome True ''b'' None, outcome True ''c'' None,
               outcome False '''' (Some ''cannot launch''), outcome True ''d'' None],
      written = [], newResults = []\<rparr>
   = (Some (FailureDuringExecution
              ''failure during the execution of the experiment: cannot launch''),
      \<lparr>world = [outcome True ''d'' None],
       written = [''3.0.4'' @ tab @ ''3.0.4'' @ tab @ ''PASS'' @ tab @ ''b'' @ newline],
       newResults = [zero_Result\<lparr>Pass := True, Note := ''a''\<rparr>,
                     zero_Result\<lparr>Pass := True, Note := ''b''\<rparr>,
                     zero_Result\<lparr>Pass := True, Note := ''c''\<rparr>]\<rparr>)"
proof -
  let ?first = "versions_pair ''3.0.4'' ''3.0.4''" and ?second = "versions_pair ''3.0.4'' ''3.1.0''"
  let ?w = "[outcome True ''a'' None, outcome True ''b'' None, outcome True ''c'' None,
             outcome False '''' (Some ''cannot launch''), outcome True ''d'' None]"
  let ?st = "\<lparr>world = ?w, written = [], newResults = []\<rparr>"
  let ?st1 = "\<lparr>world = [outcome True ''c'' None,
                         outcome False '''' (Some ''cannot launch''), outcome True ''d'' None],
               written = [''3.0.4'' @ tab @ ''3.0.4'' @ tab @ ''PASS'' @ tab @ ''b'' @ newline],
               newResults = [zero_Result\<lparr>Pass := True, Note := ''a''\<rparr>,
                             zero_Result\<lparr>Pass := True, Note := ''b''\<rparr>]\<rparr>"
  have h1: "run_loop scripted (sysCfg_n 2) [?first] ?st = (None, ?st1)"
  proof (rule prod_eqI)
    show "fst (run_loop scripted (sysCfg_n 2) [?first] ?st) = fst (None, ?st1)"
      by code_simp
    have "world (snd (run_loop scripted (sysCfg_n 2) [?first] ?st)) = world ?st1"
      by code_simp
    moreover have "written (snd (run_loop scripted (sysCfg_n 2) [?first] ?st)) = written ?st1"
      by code_simp
    moreover have "newResults (snd (run_loop scripted (sysCfg_n 2) [?first] ?st)) = newResults ?st1"
      by code_simp
    ultimately show "snd (run_loop scripted (sysCfg_n 2) [?first] ?st) = snd (None, ?st1)"
      by (cases "snd (run_loop scripted (sysCfg_n 2) [?first] ?st)") simp
  qed
  have h2: "invocations scripted (sysCfg_n 2) ?second 1 (world ?st1)
      = ([(zero_Result\<lparr>Pass := True, Note := ''c''\<rparr>, None)],
         [outcome False '''' (Some ''cannot launch''), outcome True ''d'' None])"
    by code_simp
  have h3: "\<forall>r\<in>set [(zero_Result\<lparr>Pass := True, Note := ''c''\<rparr>, None :: string option)].
      snd r = None"
    by simp
  have h4: "runExperiment scripted ?second (sysCfg_n 2)
        [outcome False '''' (Some ''cannot launch''), outcome True ''d'' None]
      = ((zero_Result\<lparr>Pass := False, Note := ''''\<rparr>,
          Some ''failure during the execution of the experiment: cannot launch''),
         [outcome True ''d'' None])"
    by code_simp
  have h5: "int 1 < Nrun (sysCfg_n 2)"
    by (simp add: sysCfg_n_def)
  from run_loop_aborts_at_execution_error [OF h1 h2 h3 h4 h5, of "[versions_pair ''3.1.0'' ''3.0.4'']"]
  show ?thesis by simp
qed

subsection \<open>The aggregate status of one experiment\<close>

text \<open>
  C6. One pass of the outer loop for the experiment \<open>e\<close>, from any state. When the
  \<open>Nrun\<close> invocations of the runner return no execution error, and the write and the
  sync succeed, exactly one record is appended for \<open>e\<close>: its status is PASS when every
  invocation has \<open>Pass\<close> true and FAIL otherwise, and its note is the note of the last
  invocation (the empty note when there was none).
\<close>

theorem run_one_aggregate:
  assumes "invocations env sysCfg e (nat (Nrun sysCfg)) (world st) = (rs, w1)"
    and "\<forall>r\<in>set rs. snd r = None"
    and "status = (if \<forall>r\<in>set rs. Pass (fst r) then ''PASS'' else ''FAIL'')"
    and "note = (if rs = [] then '''' else Note (fst (last rs)))"
    and "WriteString env (result_line e status note) w1 = (None, w2)"
    and "Sync env w2 = (None, w3)"
  shows "run_one env sysCfg e st =
           (None, st\<lparr>world := w3,
                     written := written st @ [result_line e status note],
                     newResults := newResults st @ map fst rs\<rparr>)
         \<and> length rs = nat (Nrun sysCfg)"
proof -
  let ?l0 = "\<lparr>success = True, failure = False, newRes = zero_Result\<rparr>"
  let ?l1 = "?l0\<lparr>newRes := (if rs = [] then newRes ?l0 else fst (last rs)),
                 success := success ?l0 \<and> (\<forall>r\<in>set rs. Pass (fst r))\<rparr>"
  let ?st1 = "st\<lparr>world := w1, newResults := newResults st @ map fst rs\<rparr>"
  have inv: "invocations env sysCfg e (nat (Nrun sysCfg - 0)) (world st) = (rs, w1)"
    using assms(1) by simp
  have it: "iterations env sysCfg e 0 ?l0 st = (None, ?l1, ?st1)"
    by (rule iterations_all_complete [OF inv assms(2)])
  have n: "Note (newRes ?l1) = note"
    by (simp add: assms(4) zero_Result_def)
  have wr: "write_result env (result_line e status note) ?st1 =
      (None, ?st1\<lparr>world := w2, written := written ?st1 @ [result_line e status note]\<rparr>)"
    using assms(5) by (simp add: write_result_def)
  have sy: "sync_file env (?st1\<lparr>world := w2, written := written ?st1 @ [result_line e status note]\<rparr>)
      = (None, st\<lparr>world := w3, written := written st @ [result_line e status note],
                   newResults := newResults st @ map fst rs\<rparr>)"
    using assms(6) by (simp add: sync_file_def)
  have "record_result env e ?l1 ?st1 =
      (None, st\<lparr>world := w3, written := written st @ [result_line e status note],
                   newResults := newResults st @ map fst rs\<rparr>)"
  proof (cases "\<forall>r\<in>set rs. Pass (fst r)")
    case True
    then have "status = ''PASS''" by (simp add: assms(3))
    with True wr sy n show ?thesis
      by (simp add: record_result_def)
  next
    case False
    then have "status = ''FAIL''" by (simp add: assms(3))
    with False wr sy n show ?thesis
      by (simp add: record_result_def)
  qed
  with it have "run_one env sysCfg e st =
      (None, st\<lparr>world := w3, written := written st @ [result_line e status note],
                   newResults := newResults st @ map fst rs\<rparr>)"
    by (simp add: run_one_def)
  with invocations_length [OF assms(1)] show ?thesis by simp
qed

text \<open>Witness for C6: three runs, of which the last does not pass; the record is FAIL
  with the note of the third run.\<close>

theorem run_one_aggregate_witness:
  "run_one scripted (sysCfg_n 3) (versions_pair ''3.0.4'' ''3.1.0'')
     \<lparr>world = [outcome True ''a'' None, outcome True ''b'' None, outcome False ''c'' None],
      written = [], newResults = []\<rparr>
   = (None,
      \<lparr>world = [],
       written = [''3.0.4'' @ tab @ ''3.1.0'' @ tab @ ''FAIL'' @ tab @ ''c'' @ newline],
       newResults = [zero_Result\<lparr>Pass := True, Note := ''a''\<rparr>,
                     zero_Result\<lparr>Pass := True, Note := ''b''\<rparr>,
                     zero_Result\<lparr>Pass := False, Note := ''c''\<rparr>]\<rparr>)"
proof -
  let ?e = "versions_pair ''3.0.4'' ''3.1.0''"
  let ?w = "[outcome True ''a'' None, outcome True ''b'' None, outcome False ''c'' None]"
  let ?st = "\<lparr>world = ?w, written = [], newResults = []\<rparr>"
  let ?rs = "[(zero_Result\<lparr>Pass := True, Note := ''a''\<rparr>, None :: string option),
              (zero_Result\<lparr>Pass := True, Note := ''b''\<rparr>, None),
              (zero_Result\<lparr>Pass := False, Note := ''c''\<rparr>, None)]"
  have inv: "invocations scripted (sysCfg_n 3) ?e (nat (Nrun (sysCfg_n 3))) (world ?st)
      = (?rs, [])"
    by code_simp
  have ok: "\<forall>r\<in>set ?rs. snd r = None" by simp
  have status: "''FAIL'' = (if \<forall>r\<in>set ?rs. Pass (fst r) then ''PASS'' else ''FAIL'')"
    by simp
  have nt: "''c'' = (if ?rs = [] then '''' else Note (fst (last ?rs)))"
    by simp
  have wr: "WriteString scripted (result_line ?e ''FAIL'' ''c'') [] = (None, [])"
    by (simp add: scripted_def)
  have sy: "Sync scripted [] = (None, [])"
    by (simp add: scripted_def)
  have line: "result_line ?e ''FAIL'' ''c'' = ''3.0.4'' @ tab @ ''3.1.0'' @ tab @ ''FAIL'' @ tab @ ''c'' @ newline"
    by (simp add: result_line_def versions_pair_def mpi_def)
  from run_one_aggregate [OF inv ok status nt wr sy] show ?thesis
    by (simp add: line)
qed

subsection \<open>The run count\<close>




subsection \<open>The failure flag\<close>

text \<open>
  C10. Every line that \<open>run\<close> writes to the results file is the PASS or the FAIL record
  of one of the experiments, and is not an ERROR record of that experiment; and after
  the inner loop the flag \<open>failure\<close> is false, as it was set before the loop, so the
  branch that writes ERROR is not taken.
\<close>

theorem run_never_writes_ERROR:
  "(\<forall>s\<in>set (written (snd (run env es sysCfg w))).
      \<exists>e\<in>set es. \<exists>note. (s = result_line e ''PASS'' note \<or> s = result_line e ''FAIL'' note)
                          \<and> (\<forall>note'. s \<noteq> result_line e ''ERROR'' note'))
   \<and> \<not> failure (fst (snd (iterations env cfg e 0
                  \<lparr>success = True, failure = False, newRes = zero_Result\<rparr> st)))"
proof
  show "\<forall>s\<in>set (written (snd (run env es sysCfg w))).
      \<exists>e\<in>set es. \<exists>note. (s = result_line e ''PASS'' note \<or> s = result_line e ''FAIL'' note)
                          \<and> (\<forall>note'. s \<noteq> result_line e ''ERROR'' note')"
  proof
    fix s assume "s \<in> set (written (snd (run env es sysCfg w)))"
    from run_written [OF this] obtain e n where
      e: "e \<in> set es" "s = result_line e ''PASS'' n \<or> s = result_line e ''FAIL'' n"
      by (auto simp: PASS_or_FAIL_def)
    from e(2) have "\<forall>note'. s \<noteq> result_line e ''ERROR'' note'"
      by (auto simp: result_line_def)
    with e show "\<exists>e\<in>set es. \<exists>note.
        (s = result_line e ''PASS'' note \<or> s = result_line e ''FAIL'' note)
        \<and> (\<forall>note'. s \<noteq> result_line e ''ERROR'' note')"
      by blast
  qed
next
  let ?l0 = "\<lparr>success = True, failure = False, newRes = zero_Result\<rparr>"
  obtain f l' st' where "iterations env cfg e 0 ?l0 st = (f, l', st')"
    by (cases "iterations env cfg e 0 ?l0 st") auto
  with iterations_keeps [OF this] show "\<not> failure (fst (snd (iterations env cfg e 0 ?l0 st)))"
    by simp
qed

text \<open>Witness for C10: one run that does not pass; the line written is not an ERROR
  record.\<close>

theorem run_never_writes_ERROR_witness:
  "\<exists>s. written (snd (run scripted [versions_pair ''3.0.4'' ''3.1.0''] (Some (sysCfg_n 1))
                        [outcome False ''boom'' None])) = [s]
       \<and> (\<forall>note'. s \<noteq> result_line (versions_pair ''3.0.4'' ''3.1.0'') ''ERROR'' note')"
proof -
  let ?e = "versions_pair ''3.0.4'' ''3.1.0''"
  let ?run = "run scripted [?e] (Some (sysCfg_n 1)) [outcome False ''boom'' None]"
  have w: "written (snd ?run) = [result_line ?e ''FAIL'' ''boom'']"
    by code_simp
  have "\<forall>s\<in>set (written (snd ?run)).
      \<exists>e\<in>set [?e]. \<exists>note. (s = result_line e ''PASS'' note \<or> s = result_line e ''FAIL'' note)
                          \<and> (\<forall>note'. s \<noteq> result_line e ''ERROR'' note')"
    using run_never_writes_ERROR [of scripted "[?e]" "Some (sysCfg_n 1)"
        "[outcome False ''boom'' None]"]
    by (rule conjunct1)
  then have "\<forall>note'. result_line ?e ''FAIL'' ''boom'' \<noteq> result_line ?e ''ERROR'' note'"
    unfolding w by simp
  with w show ?thesis by blast
qed

end
